theory Spec2Isabelle
  imports Complex_Main "HOL-Library.Word" "HOL-Library.Multiset"
begin

unbundle bit_operations_syntax

section \<open>Data model\<close>

text \<open>
  Go's \<open>byte\<close> is an 8-bit word and a \<open>[]byte\<close> buffer is the list of its bytes
  (capacity is not part of the value); a buffer may have any length, running out of
  memory is not part of the model. \<open>uint32\<close> and \<open>uint64\<close> are words, whose
  arithmetic wraps. Go's \<open>int\<close> is the signed 64-bit integer of a 64-bit target. The
  caller's \<open>width\<close> of a \<open>Sequence\<close> is any such value, so it is a 64-bit word read
  as signed (\<open>sint\<close>), and the subtraction and the decrement of the padding loop wrap.
  A digit count (at most 20) and a position in a buffer are mathematical integers: they
  stay far inside the 64-bit range.
\<close>

type_synonym byte = "8 word"
type_synonym bytes = "byte list"
type_synonym uint32 = "32 word"
type_synonym uint64 = "64 word"
type_synonym int64 = "64 word"
type_synonym rune = "32 word"

definition bytes_of :: "string \<Rightarrow> bytes" where
  "bytes_of s = map of_char s"

text \<open>
  A panic is a value: the three construction panics carry the message of the source,
  and the runtime panic of an index expression out of range is \<open>IndexOutOfRange\<close>.
\<close>

datatype error = Panic string | IndexOutOfRange

text \<open>
  A \<open>float64\<close> is a finite value (a rational here, which every finite \<open>float64\<close> is),
  an infinity or NaN. Only the comparisons of the source are modelled; every comparison
  with NaN is false, as in Go.
\<close>

datatype float64 = NaN | NegInf | Finite rat | PosInf

fun f_le :: "float64 \<Rightarrow> float64 \<Rightarrow> bool" where
  "f_le NaN _ = False"
| "f_le _ NaN = False"
| "f_le NegInf _ = True"
| "f_le _ PosInf = True"
| "f_le (Finite a) (Finite b) = (a \<le> b)"
| "f_le PosInf _ = False"
| "f_le _ NegInf = False"

definition f_lt :: "float64 \<Rightarrow> float64 \<Rightarrow> bool" where
  "f_lt a b = (f_le a b \<and> \<not> f_le b a)"

definition f_eq :: "float64 \<Rightarrow> float64 \<Rightarrow> bool" where
  "f_eq a b = (f_le a b \<and> f_le b a)"

definition f_ge :: "float64 \<Rightarrow> float64 \<Rightarrow> bool" where
  "f_ge a b = f_le b a"

text \<open>
  The state that generation reads and writes:
  \<^item> \<open>rnd\<close> and \<open>pos\<close>: the raw 64-bit values that successive calls of \<open>Fastrand()\<close>
    return, and how many have been drawn;
  \<^item> \<open>cells\<close>: the heap of \<open>uint64\<close> variables; a \<open>sequence\<close> holds the address of its
    counter (\<open>curr *uint64\<close>), so every copy of the node shares it;
  \<^item> \<open>arrs\<close>: the backing arrays that \<open>shuffle\<close> reorders in place, addressed like the
    counters. An array is kept as the current order of the indices of the children
    passed at construction: slot \<open>i\<close> of the Go array holds child number
    \<open>arrs s a ! i\<close>;
  \<^item> \<open>nxt\<close>: the next free address.
\<close>

record state =
  rnd :: "nat \<Rightarrow> uint64"
  pos :: nat
  cells :: "nat \<Rightarrow> uint64"
  arrs :: "nat \<Rightarrow> nat list"
  nxt :: nat

section \<open>Random source (package internal)\<close>

definition Fastrand :: "state \<Rightarrow> uint64 \<times> state" where
  "Fastrand s = (rnd s (pos s), s\<lparr>pos := pos s + 1\<rparr>)"

text \<open>\<open>bits.Mul64\<close>: the 128-bit product of two 64-bit values as (high, low).\<close>

definition Mul64 :: "uint64 \<Rightarrow> uint64 \<Rightarrow> uint64 \<times> uint64" where
  "Mul64 x y = (word_of_nat ((unat x * unat y) div 2 ^ 64), word_of_nat (unat x * unat y))"

text \<open>
  \<open>RandN\<close>, split into the value it computes from the raw draw (\<open>RandN_val\<close>) and the
  draw itself.
\<close>

definition RandN_val :: "uint32 \<Rightarrow> uint64 \<Rightarrow> uint32" where
  "RandN_val n r = (let (res, _) = Mul64 (ucast n) r in ucast res)"

definition RandN :: "uint32 \<Rightarrow> state \<Rightarrow> uint32 \<times> state" where
  "RandN n s = (let (r, s') = Fastrand s in (RandN_val n r, s'))"

definition int53Mask :: uint64 where
  "int53Mask = 2 ^ 53 - 1"

text \<open>
  \<open>float64(Fastrand()&int53Mask) * f53Mul\<close>: the masked value is below \<open>2^53\<close>, so the
  conversion and the scaling by \<open>2^-53\<close> are exact.
\<close>

definition RandFloat64 :: "state \<Rightarrow> float64 \<times> state" where
  "RandFloat64 s = (let (r, s') = Fastrand s
                    in (Finite (of_nat (unat (r AND int53Mask)) / 2 ^ 53), s'))"

section \<open>Integer formatter\<close>

definition itob :: "uint64 \<Rightarrow> byte" where
  "itob u = of_char CHR ''0'' + ucast u"

definition set_at :: "'a list \<Rightarrow> int \<Rightarrow> 'a \<Rightarrow> error + 'a list" where
  "set_at b i v = (if 0 \<le> i \<and> i < int (length b) then Inr (b[nat i := v])
                   else Inl IndexOutOfRange)"

text \<open>\<open>for u2 := u; u2 > 0; u2 /= 10 { n++ }\<close>\<close>

function count_digits :: "uint64 \<Rightarrow> int \<Rightarrow> int" where
  "count_digits u2 n = (if u2 > 0 then count_digits (u2 div 10) (n + 1) else n)"
  by pat_completeness auto
termination
proof (relation "measure (\<lambda>(u2, n). unat u2)")
  show "wf (measure (\<lambda>(u2 :: uint64, n :: int). unat u2))" by simp
next
  fix u2 :: uint64 and n :: int
  assume "0 < u2"
  then have "0 < unat u2" by (simp add: word_less_nat_alt)
  then have "unat u2 div 10 < unat u2" by simp
  then show "((u2 div 10, n + 1), (u2, n)) \<in> measure (\<lambda>(u2, n). unat u2)"
    by (simp add: unat_div)
qed

declare count_digits.simps [simp del]

text \<open>\<open>for pad := width - n; pad > 0; pad-- { b = append(b, '0') }\<close>\<close>

function pad_zeros :: "int64 \<Rightarrow> bytes \<Rightarrow> bytes" where
  "pad_zeros pad b = (if sint pad > 0 then pad_zeros (pad - 1) (b @ [of_char CHR ''0'']) else b)"
  by pat_completeness auto
termination
proof (relation "measure (\<lambda>(pad, b). nat (sint pad))")
  show "wf (measure (\<lambda>(pad :: int64, b :: bytes). nat (sint pad)))" by simp
next
  fix pad :: int64 and b :: bytes
  assume pos: "0 < sint pad"
  have "sint (pad - 1) = signed_take_bit 63 (sint pad - 1)"
    by (simp add: sint_word_diff)
  also have "\<dots> = sint pad - 1"
    using pos sint_lt [of pad] by (simp add: signed_take_bit_int_eq_self)
  finally have "nat (sint (pad - 1)) < nat (sint pad)" using pos by simp
  then show "((pad - 1, b @ [of_char CHR ''0'']), (pad, b))
               \<in> measure (\<lambda>(pad, b). nat (sint pad))"
    by simp
qed

declare pad_zeros.simps [simp del]

text \<open>
  \<open>for u >= 10 && i > 0 { q := u / 10; b[i] = itob(u - q*10); u = q; i-- }\<close>,
  returning the buffer with the final \<open>u\<close> and \<open>i\<close>.
\<close>

function digits_loop :: "bytes \<Rightarrow> uint64 \<Rightarrow> int \<Rightarrow> error + (bytes \<times> uint64 \<times> int)" where
  "digits_loop b u i =
     (if u \<ge> 10 \<and> i > 0 then
        (let q = u div 10 in
         case set_at b i (itob (u - q * 10)) of
           Inl e \<Rightarrow> Inl e
         | Inr b' \<Rightarrow> digits_loop b' q (i - 1))
      else Inr (b, u, i))"
  by pat_completeness auto
termination
  by (relation "measure (\<lambda>(b, u, i). nat i)") auto

declare digits_loop.simps [simp del]

text \<open>
  \<open>appendInt\<close>. The \<open>n\<close> bytes that extend the buffer are zero when they come from
  \<open>make([]byte, n)\<close> and whatever the backing array held when the buffer is resliced
  within its capacity; \<open>appendInt_fill\<close> takes them as \<open>fill\<close>, and the digit loop
  overwrites every one of them. The digit count \<open>n\<close> enters \<open>width - n\<close> as a 64-bit
  value, and the difference wraps.
\<close>

definition ndigits :: "uint64 \<Rightarrow> int" where
  "ndigits u = count_digits u (if u = 0 then 1 else 0)"

definition appendInt_fill :: "bytes \<Rightarrow> bytes \<Rightarrow> uint64 \<Rightarrow> int64 \<Rightarrow> error + bytes" where
  "appendInt_fill fill b u width =
     (let n = ndigits u;
          b = pad_zeros (width - word_of_int n) b;
          b = b @ fill;
          i = int (length b) - 1
      in case digits_loop b u i of
           Inl e \<Rightarrow> Inl e
         | Inr (b, u, i) \<Rightarrow> set_at b i (itob u))"

definition appendInt :: "bytes \<Rightarrow> uint64 \<Rightarrow> int64 \<Rightarrow> error + bytes" where
  "appendInt b u width = appendInt_fill (replicate (nat (ndigits u)) 0) b u width"

text \<open>
  Go's conversion \<open>string(r)\<close> of a rune: its UTF-8 encoding, and the encoding of
  U+FFFD for a value that is no valid code point (negative, a surrogate, above U+10FFFF).
\<close>

definition utf8 :: "int \<Rightarrow> bytes" where
  "utf8 c =
     (if c < 0x80 then [of_int c]
      else if c < 0x800 then [of_int (0xC0 + c div 64), of_int (0x80 + c mod 64)]
      else if c < 0x10000 then
        [of_int (0xE0 + c div 4096), of_int (0x80 + c div 64 mod 64), of_int (0x80 + c mod 64)]
      else [of_int (0xF0 + c div 262144), of_int (0x80 + c div 4096 mod 64),
            of_int (0x80 + c div 64 mod 64), of_int (0x80 + c mod 64)])"

definition string_of_rune :: "rune \<Rightarrow> bytes" where
  "string_of_rune r =
     (let c = sint r
      in if c < 0 \<or> 0x10FFFF < c \<or> (0xD800 \<le> c \<and> c \<le> 0xDFFF) then utf8 0xFFFD
         else utf8 c)"

section \<open>Parts\<close>

text \<open>
  The implementations of the interface \<open>Part\<close>, one constructor for each Go type, with
  the fields of the struct in their order. \<open>shuffle\<close> has the address of its backing
  array and the children passed at construction; \<open>sequence\<close> has the address of its
  counter.
\<close>

datatype part =
    gen "part list"
  | nullpart
  | group' "part list"
  | repeat "part list" uint32 uint32
  | potentially50 part
  | potentiallyP part float64
  | literal bytes
  | anyOf "part list" uint32
  | anyOfString "bytes list" uint32
  | anyOfByte bytes uint32
  | anyOfRune "rune list" uint32
  | shuffle nat "part list" uint32
  | sequence uint64 uint64 int64 nat

text \<open>A configuration of generation: the buffer and the state.\<close>

type_synonym conf = "bytes \<times> state"

text \<open>\<open>xs[i]\<close> as an expression: a panic when \<open>i\<close> is out of range.\<close>

definition index :: "'a list \<Rightarrow> nat \<Rightarrow> error + 'a" where
  "index xs i = (if i < length xs then Inr (xs ! i) else Inl IndexOutOfRange)"

text \<open>\<open>for _, p := range ps { b = p.Append(b) }\<close>, for any body \<open>f\<close>.\<close>

fun each :: "('a \<Rightarrow> 'c \<Rightarrow> error + 'c) \<Rightarrow> 'a list \<Rightarrow> 'c \<Rightarrow> error + 'c" where
  "each f [] c = Inr c"
| "each f (p # ps) c = (case f p c of Inl e \<Rightarrow> Inl e | Inr c' \<Rightarrow> each f ps c')"

text \<open>\<open>for i := uint32(0); i < n; i++ { body }\<close>: the body runs \<open>n\<close> times.\<close>

fun ntimes :: "nat \<Rightarrow> ('c \<Rightarrow> error + 'c) \<Rightarrow> 'c \<Rightarrow> error + 'c" where
  "ntimes 0 f c = Inr c"
| "ntimes (Suc n) f c = (case f c of Inl e \<Rightarrow> Inl e | Inr c' \<Rightarrow> ntimes n f c')"

lemma each_cong [fundef_cong]:
  "ps = qs \<Longrightarrow> c = d \<Longrightarrow> (\<And>p c'. p \<in> set qs \<Longrightarrow> f p c' = g p c')
   \<Longrightarrow> each f ps c = each g qs d"
  by (induction qs arbitrary: ps c d) (auto split: sum.splits)

lemma ntimes_cong [fundef_cong]:
  "n = m \<Longrightarrow> c = d \<Longrightarrow> (\<And>c'. f c' = g c') \<Longrightarrow> ntimes n f c = ntimes m g d"
  by (induction m arbitrary: n c d) (auto split: sum.splits)

lemma index_size [termination_simp]:
  "index ps k = Inr p \<Longrightarrow> size p < Suc (size_list size ps)"
proof -
  assume "index ps k = Inr p"
  then have "p \<in> set ps"
    by (auto simp: index_def split: if_splits)
  then have "size p \<le> size_list size ps"
    by (rule size_list_estimation') simp
  then show ?thesis by simp
qed

text \<open>
  \<open>p.parts[i], p.parts[j] = p.parts[j], p.parts[i]\<close>: both index expressions are
  evaluated, then both slots are assigned.
\<close>

definition swap :: "'a list \<Rightarrow> nat \<Rightarrow> nat \<Rightarrow> error + 'a list" where
  "swap xs i j = (if i < length xs \<and> j < length xs then Inr (xs[i := xs ! j, j := xs ! i])
                  else Inl IndexOutOfRange)"

text \<open>
  The first loop of \<open>shuffle.Append\<close>, on the array at address \<open>a\<close>:
  \<open>for i := p.len - 1; i > 0; i-- { j := RandN(i + 1); swap }\<close>.
\<close>

function fisher_yates :: "nat \<Rightarrow> uint32 \<Rightarrow> state \<Rightarrow> error + state" where
  "fisher_yates a i s =
     (if i > 0 then
        (let (j, s') = RandN (i + 1) s in
         case swap (arrs s' a) (unat i) (unat j) of
           Inl e \<Rightarrow> Inl e
         | Inr arr \<Rightarrow> fisher_yates a (i - 1) (s'\<lparr>arrs := (arrs s')(a := arr)\<rparr>))
      else Inr s)"
  by pat_completeness auto
termination
proof (relation "measure (\<lambda>(a, i, s). unat i)")
  show "wf (measure (\<lambda>(a :: nat, i :: uint32, s :: state). unat i))" by simp
next
  fix a :: nat and i :: uint32 and s x j s' arr
  assume "0 < i"
  then have "i \<noteq> 0" by auto
  then have "unat (i - 1) < unat i"
    by (simp add: unat_minus_one unat_gt_0)
  then show "((a, i - 1, s'\<lparr>arrs := (arrs s')(a := arr)\<rparr>), (a, i, s)) \<in> measure (\<lambda>(a, i, s). unat i)"
    by simp
qed

declare fisher_yates.simps [simp del]

text \<open>
  \<open>Append\<close> of every implementation of \<open>Part\<close>. In \<open>sequence.Append\<close> the counter is
  loaded and then compared and swapped; with one caller the swap succeeds at the first
  attempt, so the loop body runs once and stores \<open>curr\<close>.
\<close>

fun Append :: "part \<Rightarrow> conf \<Rightarrow> error + conf" where
  "Append (gen ps) c = each Append ps c"
| "Append nullpart c = Inr c"
| "Append (group' ps) c = each Append ps c"
| "Append (repeat ps mn maxr) (b, s) =
     (let (r, s') = RandN maxr s; n = r + mn
      in ntimes (unat n) (each Append ps) (b, s'))"
| "Append (potentially50 p) (b, s) =
     (let (r, s') = Fastrand s
      in if r AND 1 = 1 then Append p (b, s') else Inr (b, s'))"
| "Append (potentiallyP p percent) (b, s) =
     (let (x, s') = RandFloat64 s
      in if f_le x percent then Append p (b, s') else Inr (b, s'))"
| "Append (literal l) (b, s) = Inr (b @ l, s)"
| "Append (anyOf ps len) (b, s) =
     (let (n, s') = RandN len s
      in case index ps (unat n) of Inl e \<Rightarrow> Inl e | Inr p \<Rightarrow> Append p (b, s'))"
| "Append (anyOfString alphabet len) (b, s) =
     (let (n, s') = RandN len s
      in case index alphabet (unat n) of Inl e \<Rightarrow> Inl e | Inr x \<Rightarrow> Inr (b @ x, s'))"
| "Append (anyOfByte alphabet len) (b, s) =
     (let (n, s') = RandN len s
      in case index alphabet (unat n) of Inl e \<Rightarrow> Inl e | Inr x \<Rightarrow> Inr (b @ [x], s'))"
| "Append (anyOfRune alphabet len) (b, s) =
     (let (n, s') = RandN len s
      in case index alphabet (unat n) of
           Inl e \<Rightarrow> Inl e
         | Inr x \<Rightarrow> Inr (b @ string_of_rune x, s'))"
| "Append (shuffle a ps len) (b, s) =
     (case fisher_yates a (len - 1) s of
        Inl e \<Rightarrow> Inl e
      | Inr s' \<Rightarrow>
          each (\<lambda>i (b, s). case index (arrs s a) i of
                             Inl e \<Rightarrow> Inl e
                           | Inr k \<Rightarrow> (case index ps k of
                                         Inl e \<Rightarrow> Inl e
                                       | Inr p \<Rightarrow> Append p (b, s)))
               [0..<unat len] (b, s'))"
| "Append (sequence start mx width a) (b, s) =
     (let last = cells s a;
          curr = last + 1;
          curr = (if curr > mx \<or> curr < start then start else curr)
      in case appendInt b curr width of
           Inl e \<Rightarrow> Inl e
         | Inr b' \<Rightarrow> Inr (b', s\<lparr>cells := (cells s)(a := curr)\<rparr>))"

section \<open>Constructors\<close>

text \<open>The loop of \<open>New\<close> over its arguments, with the list \<open>parts\<close> built so far.\<close>

fun New_loop :: "part list \<Rightarrow> part list \<Rightarrow> part list" where
  "New_loop [] parts = parts"
| "New_loop (v # p) parts =
     (case v of
        nullpart \<Rightarrow> New_loop p parts
      | group' vs \<Rightarrow> New_loop p (parts @ vs)
      | _ \<Rightarrow> New_loop p (parts @ [v]))"

definition New :: "part list \<Rightarrow> part" where
  "New p = gen (New_loop p [])"

text \<open>\<open>gen.String\<close>: the parts appended to an empty buffer.\<close>

fun String :: "part \<Rightarrow> state \<Rightarrow> error + conf" where
  "String (gen ps) s = each Append ps ([], s)"
| "String p s = Append p ([], s)"

definition Group :: "part list \<Rightarrow> part" where
  "Group p = (if length p = 1 then p ! 0 else group' p)"

text \<open>\<open>for i := uint32(0); i < max; i++ { g = append(g, p...) }\<close>, as often as \<open>k\<close> says.\<close>

fun Repeat_loop :: "nat \<Rightarrow> part list \<Rightarrow> part list \<Rightarrow> part list" where
  "Repeat_loop 0 p g = g"
| "Repeat_loop (Suc k) p g = Repeat_loop k p (g @ p)"

definition Repeat :: "uint32 \<Rightarrow> uint32 \<Rightarrow> part list \<Rightarrow> error + part" where
  "Repeat mn mx p =
     (if mx = 0 then Inl (Panic ''max must be > 0'')
      else if mx < mn then Inl (Panic ''max must be >= min'')
      else if mn > 0 \<and> mn = mx then Inr (group' (Repeat_loop (unat mx) p []))
      else if mn = 0 \<and> mx = 1 then Inr (potentially50 (Group p))
      else Inr (repeat p mn ((mx - mn) + 1)))"

definition Potentially :: "float64 \<Rightarrow> part \<Rightarrow> error + part" where
  "Potentially c p =
     (if f_lt c (Finite 0) then Inl (Panic ''chance must be > 0'')
      else if f_eq c (Finite 0) then Inr nullpart
      else if f_ge c (Finite 1) then Inr p
      else if f_eq c (Finite (1 / 2)) then Inr (potentially50 p)
      else Inr (potentiallyP p c))"

definition Literal :: "bytes \<Rightarrow> part" where
  "Literal s = literal s"

definition OneOf :: "part list \<Rightarrow> part" where
  "OneOf p = (if length p = 1 then p ! 0 else anyOf p (of_nat (length p)))"

definition OneOfString :: "bytes list \<Rightarrow> part" where
  "OneOfString s = anyOfString s (of_nat (length s))"

definition OneOfByte :: "bytes \<Rightarrow> part" where
  "OneOfByte b = anyOfByte b (of_nat (length b))"

definition OneOfRune :: "rune list \<Rightarrow> part" where
  "OneOfRune r = anyOfRune r (of_nat (length r))"

text \<open>
  \<open>Shuffle\<close> keeps the slice of its arguments: a new array at a fresh address, holding
  the children in the order given.
\<close>

definition Shuffle :: "part list \<Rightarrow> state \<Rightarrow> part \<times> state" where
  "Shuffle p s =
     (shuffle (nxt s) p (of_nat (length p)),
      s\<lparr>arrs := (arrs s)(nxt s := [0..<length p]), nxt := nxt s + 1\<rparr>)"

text \<open>\<open>Sequence\<close> allocates its counter (\<open>var curr uint64 = start - 1\<close>) and keeps its address.\<close>

definition Sequence :: "uint64 \<Rightarrow> uint64 \<Rightarrow> int64 \<Rightarrow> state \<Rightarrow> error + part \<times> state" where
  "Sequence start mx width s =
     (if mx < start then Inl (Panic ''max must be >= min'')
      else Inr (sequence start mx width (nxt s),
                s\<lparr>cells := (cells s)(nxt s := start - 1), nxt := nxt s + 1\<rparr>))"

section \<open>Notions used in the statements\<close>

text \<open>
  The state before anything is constructed, for a given sequence \<open>f\<close> of raw draws.
\<close>

definition st0 :: "(nat \<Rightarrow> uint64) \<Rightarrow> state" where
  "st0 f = \<lparr>rnd = f, pos = 0, cells = (\<lambda>_. 0), arrs = (\<lambda>_. []), nxt = 0\<rparr>"

text \<open>
  \<open>hits n k\<close>: how many of the \<open>2^64\<close> raw values make \<open>RandN(n)\<close> return \<open>k\<close>.
\<close>

definition hits :: "uint32 \<Rightarrow> uint32 \<Rightarrow> nat" where
  "hits n k = card {r. RandN_val n r = k}"

text \<open>Division rounded up.\<close>

definition cdiv :: "nat \<Rightarrow> nat \<Rightarrow> nat" where
  "cdiv a n = (a + n - 1) div n"

text \<open>The bytes of a result of generation, without the state.\<close>

definition out :: "error + conf \<Rightarrow> error + bytes" where
  "out r = (case r of Inl e \<Rightarrow> Inl e | Inr (b, s) \<Rightarrow> Inr b)"

text \<open>What \<open>New\<close> adds to its list for one argument.\<close>

definition New_item :: "part \<Rightarrow> part list" where
  "New_item v = (case v of nullpart \<Rightarrow> [] | group' vs \<Rightarrow> vs | _ \<Rightarrow> [v])"

text \<open>
  The decimal representation of a number, most significant digit first, and the
  representation left-padded with \<open>'0'\<close> to at least \<open>width\<close> digits.
\<close>

fun dec :: "nat \<Rightarrow> bytes" where
  "dec n = (if n < 10 then [48 + of_nat n] else dec (n div 10) @ [48 + of_nat (n mod 10)])"

declare dec.simps [simp del]

definition zero_padded :: "int \<Rightarrow> nat \<Rightarrow> bytes" where
  "zero_padded width n = replicate (nat (width - int (length (dec n)))) 48 @ dec n"

text \<open>
  What the formatter writes for a 64-bit \<open>width\<close>: as many \<open>'0'\<close> as the wrapping
  difference of \<open>width\<close> and the number of digits says, read as signed, and the digits.
\<close>

definition pad_count :: "int64 \<Rightarrow> nat \<Rightarrow> nat" where
  "pad_count width n = nat (sint (width - of_nat (length (dec n))))"

definition wrap_padded :: "int64 \<Rightarrow> nat \<Rightarrow> bytes" where
  "wrap_padded width n = replicate (pad_count width n) 48 @ dec n"

text \<open>The smallest value of a 64-bit \<open>int\<close>.\<close>

definition MinInt64 :: int64 where
  "MinInt64 = - 9223372036854775808"

text \<open>
  The value a \<open>sequence\<close> emits when its counter holds \<open>lst\<close>: \<open>lst + 1\<close>, or \<open>start\<close>
  when that is above \<open>max\<close> or below \<open>start\<close>.
\<close>

definition seq_next :: "uint64 \<Rightarrow> uint64 \<Rightarrow> uint64 \<Rightarrow> uint64" where
  "seq_next start mx lst = (if lst + 1 > mx \<or> lst + 1 < start then start else lst + 1)"

text \<open>The outputs of the first two calls of \<open>Append\<close> (on an empty buffer) of a new part.\<close>

definition first_two :: "error + part \<times> state \<Rightarrow> (error + bytes) \<times> (error + bytes)" where
  "first_two r =
     (case r of
        Inl e \<Rightarrow> (Inl e, Inl e)
      | Inr (p, s) \<Rightarrow>
          (case Append p ([], s) of
             Inl e \<Rightarrow> (Inl e, Inl e)
           | Inr (b, s') \<Rightarrow> (Inr b, out (Append p ([], s')))))"

text \<open>
  \<open>count_hits min max c\<close>: how many raw values make the \<open>repeat\<close> built by
  \<open>Repeat(min, max, ...)\<close> repeat its children \<open>c\<close> times.
\<close>

definition count_hits :: "uint32 \<Rightarrow> uint32 \<Rightarrow> uint32 \<Rightarrow> nat" where
  "count_hits mn mx c = card {r. RandN_val ((mx - mn) + 1) r + mn = c}"

text \<open>The list with the elements at \<open>i\<close> and \<open>j\<close> exchanged (both in range).\<close>

definition swapl :: "'a list \<Rightarrow> nat \<Rightarrow> nat \<Rightarrow> 'a list" where
  "swapl xs i j = xs[i := xs ! j, j := xs ! i]"

text \<open>
  The Fisher-Yates pass as a function of the drawn indices: the first index is swapped
  with the last position the pass visits, \<open>i = count - 1\<close>, the next with \<open>i - 1\<close>, down
  to position 1.
\<close>

fun fy_pure :: "nat list \<Rightarrow> 'a list \<Rightarrow> 'a list" where
  "fy_pure [] xs = xs"
| "fy_pure (j # js) xs = fy_pure js (swapl xs (Suc (length js)) j)"

text \<open>Draws as \<open>RandN(i + 1)\<close> may return them: the draw for position \<open>i\<close> is at most \<open>i\<close>.\<close>

fun valid_draws :: "nat list \<Rightarrow> bool" where
  "valid_draws [] = True"
| "valid_draws (j # js) = (j \<le> Suc (length js) \<and> valid_draws js)"

text \<open>
  The indices that a pass starting at position \<open>m\<close> draws, from the raw values \<open>f p\<close>,
  \<open>f (p + 1)\<close>, ...
\<close>

fun code_draws :: "nat \<Rightarrow> (nat \<Rightarrow> uint64) \<Rightarrow> nat \<Rightarrow> nat list" where
  "code_draws 0 f p = []"
| "code_draws (Suc m) f p = unat (RandN_val (of_nat (Suc m) + 1) (f p)) # code_draws m f (Suc p)"

text \<open>
  Every Choice and Shuffle node of the part holds a non-empty list and the length field
  that its constructor computes from it.
\<close>

fun nonempty :: "part \<Rightarrow> bool" where
  "nonempty (gen ps) = (\<forall>p\<in>set ps. nonempty p)"
| "nonempty nullpart = True"
| "nonempty (group' ps) = (\<forall>p\<in>set ps. nonempty p)"
| "nonempty (repeat ps mn maxr) = (\<forall>p\<in>set ps. nonempty p)"
| "nonempty (potentially50 p) = nonempty p"
| "nonempty (potentiallyP p c) = nonempty p"
| "nonempty (literal l) = True"
| "nonempty (anyOf ps len) = (ps \<noteq> [] \<and> len = of_nat (length ps) \<and> (\<forall>p\<in>set ps. nonempty p))"
| "nonempty (anyOfString alphabet len) = (alphabet \<noteq> [] \<and> len = of_nat (length alphabet))"
| "nonempty (anyOfByte alphabet len) = (alphabet \<noteq> [] \<and> len = of_nat (length alphabet))"
| "nonempty (anyOfRune alphabet len) = (alphabet \<noteq> [] \<and> len = of_nat (length alphabet))"
| "nonempty (shuffle a ps len) = (ps \<noteq> [] \<and> len = of_nat (length ps) \<and> (\<forall>p\<in>set ps. nonempty p))"
| "nonempty (sequence start mx width a) = True"

text \<open>
  In state \<open>s\<close> the array of every \<open>shuffle\<close> node of the part holds each of its children
  once, in some order: what \<open>Shuffle\<close> allocates and what every pass leaves.
\<close>

fun arrays_ok :: "state \<Rightarrow> part \<Rightarrow> bool" where
  "arrays_ok s (gen ps) = (\<forall>p\<in>set ps. arrays_ok s p)"
| "arrays_ok s (group' ps) = (\<forall>p\<in>set ps. arrays_ok s p)"
| "arrays_ok s (repeat ps mn maxr) = (\<forall>p\<in>set ps. arrays_ok s p)"
| "arrays_ok s (potentially50 p) = arrays_ok s p"
| "arrays_ok s (potentiallyP p c) = arrays_ok s p"
| "arrays_ok s (anyOf ps len) = (\<forall>p\<in>set ps. arrays_ok s p)"
| "arrays_ok s (shuffle a ps len) =
     (mset (arrs s a) = mset [0..<length ps] \<and> (\<forall>p\<in>set ps. arrays_ok s p))"
| "arrays_ok s p = True"

text \<open>The addresses of the arrays of the \<open>shuffle\<close> nodes of a part.\<close>

fun addrs :: "part \<Rightarrow> nat set" where
  "addrs (gen ps) = (\<Union>p\<in>set ps. addrs p)"
| "addrs (group' ps) = (\<Union>p\<in>set ps. addrs p)"
| "addrs (repeat ps mn maxr) = (\<Union>p\<in>set ps. addrs p)"
| "addrs (potentially50 p) = addrs p"
| "addrs (potentiallyP p c) = addrs p"
| "addrs (anyOf ps len) = (\<Union>p\<in>set ps. addrs p)"
| "addrs (shuffle a ps len) = insert a (\<Union>p\<in>set ps. addrs p)"
| "addrs p = {}"

text \<open>The contents of every array of a configuration, as multisets.\<close>

definition perm_of :: "conf \<Rightarrow> nat \<Rightarrow> nat multiset" where
  "perm_of c = (\<lambda>a. mset (arrs (snd c) a))"

text \<open>An example: three literals, and a generator choosing and shuffling them.\<close>

definition abc :: "part list" where
  "abc = [literal (bytes_of ''a''), literal (bytes_of ''b''), literal (bytes_of ''c'')]"

definition example_gen :: "part \<times> state" where
  "example_gen =
     (let (sh, s) = Shuffle abc (st0 (\<lambda>_. 0))
      in (New [OneOfByte (bytes_of ''12''), OneOf abc, sh], s))"

text \<open>
  The tuples of draws of a pass over \<open>n\<close> children: one draw for each position from
  \<open>n - 1\<close> down to 1, the draw for position \<open>i\<close> in \<open>[0, i]\<close>.
\<close>

definition draws_for :: "nat \<Rightarrow> nat list set" where
  "draws_for n = {js. Suc (length js) = n \<and> valid_draws js}"

text \<open>
  The probability that a pass turns the order \<open>xs\<close> into \<open>ys\<close> when every tuple of draws
  is equally likely, that is, when each draw is uniform over its range and the draws are
  independent: the share of the tuples that lead from \<open>xs\<close> to \<open>ys\<close>.
\<close>

definition perm_prob :: "nat list \<Rightarrow> nat list \<Rightarrow> real" where
  "perm_prob xs ys =
     real (card {js \<in> draws_for (length xs). fy_pure js xs = ys})
       / real (card (draws_for (length xs)))"

text \<open>An example: \<open>2^32\<close> children, one more than the count of a \<open>shuffle\<close> can hold.\<close>

definition many :: "part list" where
  "many = replicate (2 ^ 32) (literal (bytes_of ''a''))"

section \<open>Properties of the random source\<close>

lemma unat_ucast_32_64: "unat (ucast (n::uint32) :: uint64) = unat n"
proof -
  have "is_up (ucast :: uint32 \<Rightarrow> uint64)" by (simp add: is_up)
  then have "uint (ucast n :: uint64) = uint n" by (rule uint_up_ucast)
  then show ?thesis by (simp only: unat_eq_nat_uint)
qed

lemma unat_of_nat_64: "x < 2 ^ 64 \<Longrightarrow> unat (word_of_nat x :: uint64) = x"
  by (simp add: unsigned_of_nat take_bit_nat_eq_self)

lemma unat_ucast_64_32: "unat (x :: uint64) < 2 ^ 32 \<Longrightarrow> unat (ucast x :: uint32) = unat x"
  by (simp add: unsigned_ucast_eq take_bit_nat_eq_self)

lemma unat_lt_32: "unat (n :: uint32) < 2 ^ 32"
  using unsigned_less [of n, where 'a = nat] by simp

lemma unat_lt_64: "unat (r :: uint64) < 2 ^ 64"
  using unsigned_less [of r, where 'a = nat] by simp

lemma unat_RandN_val: "unat (RandN_val n r) = (unat n * unat r) div 2 ^ 64"
proof -
  have "unat n * unat r < 2 ^ 32 * 2 ^ 64"
    using unat_lt_32 [of n] unat_lt_64 [of r] by (rule mult_strict_mono') simp_all
  then have q: "(unat n * unat r) div 2 ^ 64 < 2 ^ 32"
    by (simp only: less_mult_imp_div_less)
  then have q64: "(unat n * unat r) div 2 ^ 64 < 2 ^ 64"
    by (rule less_trans) simp
  have hi: "unat (word_of_nat ((unat n * unat r) div 2 ^ 64) :: uint64) = (unat n * unat r) div 2 ^ 64"
    using q64 by (rule unat_of_nat_64)
  have "RandN_val n r = ucast (word_of_nat ((unat n * unat r) div 2 ^ 64) :: uint64)"
    by (simp add: RandN_val_def Mul64_def unat_ucast_32_64)
  then show ?thesis
    using q hi unat_ucast_64_32 [of "word_of_nat ((unat n * unat r) div 2 ^ 64)"] by simp
qed

lemma RandN_val_less: "0 < n \<Longrightarrow> RandN_val n r < n"
proof -
  assume "0 < n"
  then have n: "0 < unat n" by (simp add: word_less_nat_alt)
  have "unat n * unat r < unat n * 2 ^ 64"
    using n unat_lt_64 [of r] by simp
  then have "(unat n * unat r) div 2 ^ 64 < unat n"
    by (simp only: less_mult_imp_div_less)
  then show ?thesis by (simp only: word_less_nat_alt unat_RandN_val)
qed


lemma div_eq_iff_nat: "0 < (M::nat) \<Longrightarrow> x div M = k \<longleftrightarrow> k * M \<le> x \<and> x < (k + 1) * M"
proof -
  assume M: "0 < M"
  have "x div M = k \<longleftrightarrow> k \<le> x div M \<and> x div M < k + 1" by auto
  also have "\<dots> \<longleftrightarrow> k * M \<le> x \<and> x < (k + 1) * M"
    using M by (simp only: less_eq_div_iff_mult_less_eq div_less_iff_less_mult)
  finally show ?thesis .
qed

lemma cdiv_le_iff: "0 < n \<Longrightarrow> cdiv a n \<le> x \<longleftrightarrow> a \<le> n * x"
proof -
  assume n: "0 < n"
  have "cdiv a n \<le> x \<longleftrightarrow> (a + n - 1) div n < Suc x"
    by (simp add: cdiv_def less_Suc_eq_le)
  also have "\<dots> \<longleftrightarrow> a + n - 1 < Suc x * n"
    using n by (simp only: div_less_iff_less_mult)
  also have "\<dots> \<longleftrightarrow> a \<le> n * x"
    using n by (cases a) (auto simp: algebra_simps)
  finally show ?thesis .
qed

lemma cdiv_add:
  assumes "0 < n"
  shows "cdiv (a + m) n = cdiv a n + m div n + ((a + n - 1) mod n + m mod n) div n"
proof -
  from assms have "a + m + n - 1 = (a + n - 1) + m" by simp
  then have "cdiv (a + m) n = ((a + n - 1) + m) div n"
    by (simp only: cdiv_def)
  also have "\<dots> = (a + n - 1) div n + m div n + ((a + n - 1) mod n + m mod n) div n"
    by (rule div_add1_eq)
  finally show ?thesis by (simp only: cdiv_def)
qed

lemma cdiv_step_lower: "0 < n \<Longrightarrow> cdiv a n + m div n \<le> cdiv (a + m) n"
  by (simp add: cdiv_add)

lemma cdiv_step_upper: "0 < n \<Longrightarrow> cdiv (a + m) n \<le> cdiv a n + m div n + 1"
proof -
  assume n: "0 < n"
  have "(a + n - 1) mod n < n" "m mod n < n" using n by simp_all
  then have "(a + n - 1) mod n + m mod n < 2 * n" by linarith
  then have "((a + n - 1) mod n + m mod n) div n < 2"
    using n by (simp only: div_less_iff_less_mult)
  then show ?thesis by (simp add: cdiv_add n)
qed

lemma cdiv_step_dvd: "0 < n \<Longrightarrow> n dvd m \<Longrightarrow> cdiv (a + m) n = cdiv a n + m div n"
  by (simp add: cdiv_add)

lemma word_range_image1: "lo \<le> unat r \<and> unat r < hi \<Longrightarrow> (r :: uint64) \<in> word_of_nat ` {lo..<hi}"
proof -
  assume "lo \<le> unat r \<and> unat r < hi"
  then have "unat r \<in> {lo..<hi}" by simp
  then have "word_of_nat (unat r) \<in> (word_of_nat ` {lo..<hi} :: uint64 set)"
    by (rule imageI)
  moreover have "word_of_nat (unat r) = r" by simp
  ultimately show ?thesis by (simp only:)
qed

lemma word_range_image2: "hi \<le> 2 ^ 64 \<Longrightarrow> (r :: uint64) \<in> word_of_nat ` {lo..<hi} \<Longrightarrow> lo \<le> unat r \<and> unat r < hi"
proof -
  assume hi: "hi \<le> 2 ^ 64" and "r \<in> word_of_nat ` {lo..<hi}"
  then obtain m where m: "m \<in> {lo..<hi}" and r: "r = word_of_nat m" by blast
  from m have "m < hi" by simp
  from this hi have "m < 2 ^ 64" by (rule less_le_trans)
  then have "unat r = m" unfolding r by (rule unat_of_nat_64)
  with m show ?thesis by (simp only: atLeastLessThan_iff)
qed

lemma word_of_nat_inj_range: "hi \<le> 2 ^ 64 \<Longrightarrow> inj_on (word_of_nat :: nat \<Rightarrow> uint64) {lo..<hi}"
proof (rule inj_onI)
  fix x y :: nat
  assume hi: "hi \<le> 2 ^ 64" and x: "x \<in> {lo..<hi}" and y: "y \<in> {lo..<hi}"
    and e: "(word_of_nat x :: uint64) = word_of_nat y"
  from x have "x < hi" by simp
  from this hi have "x < 2 ^ 64" by (rule less_le_trans)
  then have ux: "unat (word_of_nat x :: uint64) = x" by (rule unat_of_nat_64)
  from y have "y < hi" by simp
  from this hi have "y < 2 ^ 64" by (rule less_le_trans)
  then have uy: "unat (word_of_nat y :: uint64) = y" by (rule unat_of_nat_64)
  from e have "unat (word_of_nat x :: uint64) = unat (word_of_nat y :: uint64)" by (rule arg_cong)
  then show "x = y" by (simp only: ux uy)
qed

lemma card_word_range:
  assumes hi: "hi \<le> 2 ^ 64"
  shows "card {r :: uint64. lo \<le> unat r \<and> unat r < hi} = hi - lo"
proof -
  have "{r :: uint64. lo \<le> unat r \<and> unat r < hi} = word_of_nat ` {lo..<hi}"
    using word_range_image1 word_range_image2 [OF hi] by blast
  then have "card {r :: uint64. lo \<le> unat r \<and> unat r < hi} = card {lo..<hi}"
    using word_of_nat_inj_range [OF hi] by (simp only: card_image)
  then show ?thesis by (simp only: card_atLeastLessThan)
qed

lemma RandN_val_eq_iff:
  assumes "k < n"
  shows "RandN_val n r = k \<longleftrightarrow>
         cdiv (unat k * 2 ^ 64) (unat n) \<le> unat r \<and> unat r < cdiv ((unat k + 1) * 2 ^ 64) (unat n)"
proof -
  from assms have n: "0 < unat n" by (auto simp: word_less_nat_alt)
  have "RandN_val n r = k \<longleftrightarrow> (unat n * unat r) div 2 ^ 64 = unat k"
    by (simp only: word_unat_eq_iff unat_RandN_val)
  also have "\<dots> \<longleftrightarrow> unat k * 2 ^ 64 \<le> unat n * unat r \<and> unat n * unat r < (unat k + 1) * 2 ^ 64"
    by (rule div_eq_iff_nat) simp
  also have "\<dots> \<longleftrightarrow> cdiv (unat k * 2 ^ 64) (unat n) \<le> unat r \<and> \<not> cdiv ((unat k + 1) * 2 ^ 64) (unat n) \<le> unat r"
    using n by (simp only: cdiv_le_iff not_le)
  finally show ?thesis by (simp only: not_le)
qed

lemma card_RandN_val:
  assumes "k < n"
  shows "hits n k =
         cdiv ((unat k + 1) * 2 ^ 64) (unat n) - cdiv (unat k * 2 ^ 64) (unat n)"
proof -
  from assms have n: "0 < unat n" and kn: "unat k + 1 \<le> unat n" by (auto simp: word_less_nat_alt)
  then have "(unat k + 1) * 2 ^ 64 \<le> unat n * 2 ^ 64" by (simp only: mult_le_mono1)
  then have "cdiv ((unat k + 1) * 2 ^ 64) (unat n) \<le> 2 ^ 64"
    using n by (simp only: cdiv_le_iff)
  then show ?thesis
    using card_word_range [of "cdiv ((unat k + 1) * 2 ^ 64) (unat n)" "cdiv (unat k * 2 ^ 64) (unat n)"]
    by (simp only: hits_def RandN_val_eq_iff [OF assms])
qed

lemma card_RandN_val_bounds:
  assumes "k < n"
  shows "2 ^ 64 div unat n \<le> hits n k"
    and "hits n k \<le> 2 ^ 64 div unat n + 1"
    and "unat n dvd 2 ^ 64 \<Longrightarrow> hits n k = 2 ^ 64 div unat n"
proof -
  define M :: nat where "M = 2 ^ 64"
  define lo where "lo = cdiv (unat k * M) (unat n)"
  define hi where "hi = cdiv (unat k * M + M) (unat n)"
  from assms have n: "0 < unat n" by (auto simp: word_less_nat_alt)
  have "(unat k + 1) * M = unat k * M + M" by simp
  then have c: "hits n k = hi - lo"
    by (simp only: card_RandN_val [OF assms] hi_def lo_def M_def)
  have l: "lo + M div unat n \<le> hi"
    unfolding lo_def hi_def using n by (rule cdiv_step_lower)
  have u: "hi \<le> lo + M div unat n + 1"
    unfolding lo_def hi_def using n by (rule cdiv_step_upper)
  from l show "2 ^ 64 div unat n \<le> hits n k"
    unfolding c M_def [symmetric] by linarith
  from l u show "hits n k \<le> 2 ^ 64 div unat n + 1"
    unfolding c M_def [symmetric] by linarith
  show "hits n k = 2 ^ 64 div unat n" if "unat n dvd 2 ^ 64"
  proof -
    from that have "unat n dvd M" by (simp only: M_def)
    with n have "hi = lo + M div unat n"
      unfolding lo_def hi_def by (rule cdiv_step_dvd)
    then show ?thesis unfolding c M_def [symmetric] by linarith
  qed
qed


lemma RandN_eq: "RandN n s = (RandN_val n (rnd s (pos s)), s\<lparr>pos := pos s + 1\<rparr>)"
  by (simp add: RandN_def Fastrand_def)

lemma hits_3_0: "hits 3 0 = 6148914691236517206"
proof -
  have "cdiv (unat (0::uint32) * 2 ^ 64) (unat (3::uint32)) = 0"
    by (simp add: cdiv_def)
  moreover have "cdiv ((unat (0::uint32) + 1) * 2 ^ 64) (unat (3::uint32)) = 6148914691236517206"
    by (simp add: cdiv_def)
  ultimately show ?thesis
    using card_RandN_val [of 0 3] by simp
qed

lemma hits_3_1: "hits 3 1 = 6148914691236517205"
proof -
  have "cdiv (unat (1::uint32) * 2 ^ 64) (unat (3::uint32)) = 6148914691236517206"
    by (simp add: cdiv_def)
  moreover have "cdiv ((unat (1::uint32) + 1) * 2 ^ 64) (unat (3::uint32)) = 12297829382473034411"
    by (simp add: cdiv_def)
  ultimately show ?thesis
    using card_RandN_val [of 1 3] by simp
qed

text \<open>
  Claim C8, as the code has it. For \<open>n > 0\<close>, \<open>RandN(n)\<close> draws one raw value \<open>r\<close> and
  returns the high half of the 128-bit product \<open>n * r\<close>, which lies in \<open>[0, n)\<close>. Every
  result \<open>k\<close> in \<open>[0, n)\<close> is attained by \<open>2^64 div n\<close> or by \<open>2^64 div n + 1\<close> of the
  \<open>2^64\<close> raw values, and by exactly \<open>2^64 div n\<close> of them when \<open>n\<close> divides \<open>2^64\<close>:
  the counts differ by at most one, and they are equal when \<open>n\<close> is a power of two.
\<close>

theorem C8_RandN_range_and_counts:
  assumes "0 < n"
  shows "RandN n s = (RandN_val n (rnd s (pos s)), s\<lparr>pos := pos s + 1\<rparr>)
         \<and> unat (RandN_val n r) = (unat n * unat r) div 2 ^ 64
         \<and> RandN_val n r < n
         \<and> (\<forall>k. k < n \<longrightarrow>
               2 ^ 64 div unat n \<le> hits n k \<and> hits n k \<le> 2 ^ 64 div unat n + 1
               \<and> (unat n dvd 2 ^ 64 \<longrightarrow> hits n k = 2 ^ 64 div unat n))"
  using assms
  by (intro conjI allI impI RandN_eq unat_RandN_val RandN_val_less card_RandN_val_bounds)

theorem C8_RandN_witness:
  "(0::uint32) < 3 \<and> (1::uint32) < 3
   \<and> RandN_val 3 9223372036854775808 < 3
   \<and> 2 ^ 64 div unat (3::uint32) \<le> hits 3 1 \<and> hits 3 1 \<le> 2 ^ 64 div unat (3::uint32) + 1"
proof -
  have h: "(0::uint32) < 3" by simp
  have k: "(1::uint32) < 3" by simp
  from C8_RandN_range_and_counts [OF h, of "st0 (\<lambda>_. 0)" 9223372036854775808] h k
  show ?thesis by blast
qed

text \<open>
  Claim C8 as stated fails: of the raw values, \<open>RandN(3)\<close> sends one more to 0 than
  to 1, so the results are not attained equally often.
\<close>

theorem C8_RandN_counterexample: "hits 3 0 \<noteq> hits 3 1"
  by (simp add: hits_3_0 hits_3_1)

section \<open>Loops over parts\<close>

lemma each_append:
  "each f (xs @ ys) c = (case each f xs c of Inl e \<Rightarrow> Inl e | Inr c' \<Rightarrow> each f ys c')"
  by (induction xs arbitrary: c) (auto split: sum.splits)

lemma Repeat_loop_eq: "Repeat_loop k p g = g @ concat (replicate k p)"
proof (induction k arbitrary: g)
  case 0
  show ?case by simp
next
  case (Suc k)
  have "concat (replicate (Suc k) p) = p @ concat (replicate k p)" by simp
  with Suc show ?case by simp
qed

lemma each_concat_replicate:
  "each f (concat (replicate k p)) c = ntimes k (each f p) c"
  by (induction k arbitrary: c) (auto simp: each_append split: sum.splits)

lemma New_loop_eq: "New_loop p parts = parts @ concat (map New_item p)"
  by (induction p arbitrary: parts) (auto simp: New_item_def split: part.splits)

section \<open>Constructors and their degenerate cases\<close>

lemma New_eq: "New p = gen (concat (map New_item p))"
  by (simp add: New_def New_loop_eq)

lemma New_item_other: "v \<noteq> nullpart \<and> (\<forall>ws. v \<noteq> group' ws) \<Longrightarrow> New_item v = [v]"
  by (cases v) (simp_all add: New_item_def)

lemma Repeat_const: "0 < k \<Longrightarrow> Repeat k k q = Inr (group' (concat (replicate (unat k) q)))"
proof -
  assume k: "0 < k"
  then have "k \<noteq> 0" by auto
  with k show ?thesis by (simp add: Repeat_def Repeat_loop_eq)
qed


lemma Potentially_neg: "f_lt c (Finite 0) \<Longrightarrow> Potentially c p = Inl (Panic ''chance must be > 0'')"
  by (simp add: Potentially_def)

lemma Potentially_zero: "f_eq c (Finite 0) \<Longrightarrow> Potentially c p = Inr nullpart"
  by (cases c) (simp_all add: Potentially_def f_lt_def f_eq_def)

lemma Potentially_one: "f_ge c (Finite 1) \<Longrightarrow> Potentially c p = Inr p"
  by (cases c) (simp_all add: Potentially_def f_lt_def f_eq_def f_ge_def)

lemma Potentially_half: "f_eq c (Finite (1 / 2)) \<Longrightarrow> Potentially c p = Inr (potentially50 p)"
  by (cases c) (simp_all add: Potentially_def f_lt_def f_eq_def f_ge_def)

lemma Potentially_other:
  "f_lt (Finite 0) c \<Longrightarrow> f_lt c (Finite 1) \<Longrightarrow> \<not> f_eq c (Finite (1 / 2))
   \<Longrightarrow> Potentially c p = Inr (potentiallyP p c)"
  by (cases c) (simp_all add: Potentially_def f_lt_def f_eq_def f_ge_def)

lemma Append_potentially50:
  "Append (potentially50 p) (b, s) =
       (if rnd s (pos s) AND 1 = 1 then Append p (b, s\<lparr>pos := pos s + 1\<rparr>)
        else Inr (b, s\<lparr>pos := pos s + 1\<rparr>))"
  by (simp add: Fastrand_def)

lemma Append_potentiallyP:
  "Append (potentiallyP p c) (b, s) =
       (if f_le (fst (RandFloat64 s)) c then Append p (b, snd (RandFloat64 s))
        else Inr (b, snd (RandFloat64 s)))"
  by (simp add: split_def)

lemma RandFloat64_eq:
  "RandFloat64 s =
       (Finite (of_nat (unat (rnd s (pos s) AND (2 ^ 53 - 1))) / 2 ^ 53), s\<lparr>pos := pos s + 1\<rparr>)"
  by (simp add: RandFloat64_def Fastrand_def int53Mask_def)


text \<open>
  Claim C3. For \<open>k \<ge> 1\<close>, \<open>Repeat(k, k, p...)\<close> returns the group holding \<open>k\<close>
  concatenated copies of the children \<open>p\<close>, and appending that group is appending the
  children of \<open>p\<close> in order, \<open>k\<close> times, from the same buffer and state: \<open>Repeat\<close> draws
  nothing of its own. The witness is \<open>Repeat(5, 5, Literal("o"))\<close>, which a generator
  turns into \<open>"ooooo"\<close>.
\<close>

theorem C3_Repeat_const:
  assumes "0 < k"
  shows "Repeat k k p = Inr (group' (concat (replicate (unat k) p)))
         \<and> Append (group' (concat (replicate (unat k) p))) c = ntimes (unat k) (each Append p) c"
proof
  from assms show "Repeat k k p = Inr (group' (concat (replicate (unat k) p)))"
    by (rule Repeat_const)
  show "Append (group' (concat (replicate (unat k) p))) c = ntimes (unat k) (each Append p) c"
    by (simp add: each_concat_replicate)
qed


theorem C3_Repeat_const_witness:
  "(0::uint32) < 5
   \<and> Repeat 5 5 [Literal (bytes_of ''o'')]
       = Inr (group' (concat (replicate (unat (5::uint32)) [Literal (bytes_of ''o'')])))
   \<and> out (String (New [group' (concat (replicate (unat (5::uint32)) [Literal (bytes_of ''o'')]))])
         (st0 (\<lambda>_. 0))) = Inr (bytes_of ''ooooo'')"
proof -
  have h: "(0::uint32) < 5" by simp
  have e: "out (String (New [group' (concat (replicate (unat (5::uint32)) [Literal (bytes_of ''o'')]))])
             (st0 (\<lambda>_. 0))) = Inr (bytes_of ''ooooo'')"
    by code_simp
  from C3_Repeat_const [OF h, of "[Literal (bytes_of ''o'')]"] h e show ?thesis by blast
qed

text \<open>
  Claim C5. \<open>Potentially(c, p)\<close> panics for \<open>c < 0\<close>; for \<open>c == 0\<close> it is the no-op
  part, whose \<open>Append\<close> returns the buffer unchanged; for \<open>c >= 1\<close> it is \<open>p\<close> itself;
  for \<open>c == 0.5\<close> it is the part that draws one raw value and includes \<open>p\<close> exactly when
  its lowest bit is set; for any other \<open>c\<close> in \<open>(0, 1)\<close> it is the part that draws
  \<open>RandFloat64()\<close>, the low 53 bits of a raw value scaled by \<open>2^-53\<close>, and includes \<open>p\<close>
  exactly when the draw is \<open><= c\<close>.
\<close>

theorem C5_Potentially:
  "(f_lt c (Finite 0) \<longrightarrow> Potentially c p = Inl (Panic ''chance must be > 0''))
   \<and> (f_eq c (Finite 0) \<longrightarrow> Potentially c p = Inr nullpart)
   \<and> Append nullpart (b, s) = Inr (b, s)
   \<and> (f_ge c (Finite 1) \<longrightarrow> Potentially c p = Inr p)
   \<and> (f_eq c (Finite (1 / 2)) \<longrightarrow> Potentially c p = Inr (potentially50 p))
   \<and> Append (potentially50 p) (b, s) =
       (if rnd s (pos s) AND 1 = 1 then Append p (b, s\<lparr>pos := pos s + 1\<rparr>)
        else Inr (b, s\<lparr>pos := pos s + 1\<rparr>))
   \<and> (f_lt (Finite 0) c \<and> f_lt c (Finite 1) \<and> \<not> f_eq c (Finite (1 / 2)) \<longrightarrow>
        Potentially c p = Inr (potentiallyP p c))
   \<and> Append (potentiallyP p c) (b, s) =
       (if f_le (fst (RandFloat64 s)) c then Append p (b, snd (RandFloat64 s))
        else Inr (b, snd (RandFloat64 s)))
   \<and> RandFloat64 s =
       (Finite (of_nat (unat (rnd s (pos s) AND (2 ^ 53 - 1))) / 2 ^ 53), s\<lparr>pos := pos s + 1\<rparr>)"
  by (intro conjI impI Potentially_neg Potentially_zero Potentially_one Potentially_half
        Append_potentially50 Append_potentiallyP RandFloat64_eq Append.simps(2))
     (auto intro: Potentially_other)



theorem C5_Potentially_witness:
  "f_lt (Finite (- 1)) (Finite 0)
   \<and> Potentially (Finite (- 1)) (literal (bytes_of ''o'')) = Inl (Panic ''chance must be > 0'')
   \<and> f_eq (Finite 0) (Finite 0)
   \<and> Potentially (Finite 0) (literal (bytes_of ''o'')) = Inr nullpart
   \<and> f_ge (Finite 1) (Finite 1)
   \<and> Potentially (Finite 1) (literal (bytes_of ''o'')) = Inr (literal (bytes_of ''o''))
   \<and> f_eq (Finite (1 / 2)) (Finite (1 / 2))
   \<and> Potentially (Finite (1 / 2)) (literal (bytes_of ''o''))
       = Inr (potentially50 (literal (bytes_of ''o'')))
   \<and> f_lt (Finite 0) (Finite (3 / 10)) \<and> f_lt (Finite (3 / 10)) (Finite 1)
   \<and> \<not> f_eq (Finite (3 / 10)) (Finite (1 / 2))
   \<and> Potentially (Finite (3 / 10)) (literal (bytes_of ''o''))
       = Inr (potentiallyP (literal (bytes_of ''o'')) (Finite (3 / 10)))"
proof -
  let ?p = "literal (bytes_of ''o'')"
  let ?s = "st0 (\<lambda>_. 0)"
  have a: "f_lt (Finite (- 1)) (Finite 0)" by (simp add: f_lt_def)
  have b: "f_eq (Finite 0) (Finite 0)" by (simp add: f_eq_def)
  have c: "f_ge (Finite 1) (Finite 1)" by (simp add: f_ge_def)
  have d: "f_eq (Finite (1 / 2)) (Finite (1 / 2))" by (simp add: f_eq_def)
  have e: "f_lt (Finite 0) (Finite (3 / 10)) \<and> f_lt (Finite (3 / 10)) (Finite 1)
           \<and> \<not> f_eq (Finite (3 / 10)) (Finite (1 / 2))" by (simp add: f_lt_def f_eq_def)
  from a C5_Potentially [of "Finite (- 1)" ?p "[]" ?s]
  have r1: "Potentially (Finite (- 1)) ?p = Inl (Panic ''chance must be > 0'')" by blast
  from b C5_Potentially [of "Finite 0" ?p "[]" ?s]
  have r2: "Potentially (Finite 0) ?p = Inr nullpart" by blast
  from c C5_Potentially [of "Finite 1" ?p "[]" ?s]
  have r3: "Potentially (Finite 1) ?p = Inr ?p" by blast
  from d C5_Potentially [of "Finite (1 / 2)" ?p "[]" ?s]
  have r4: "Potentially (Finite (1 / 2)) ?p = Inr (potentially50 ?p)" by blast
  from e C5_Potentially [of "Finite (3 / 10)" ?p "[]" ?s]
  have r5: "Potentially (Finite (3 / 10)) ?p = Inr (potentiallyP ?p (Finite (3 / 10)))" by blast
  from a b c d e r1 r2 r3 r4 r5 show ?thesis by (intro conjI) (elim conjE, assumption)+
qed

lemma Repeat_other_kept:
  assumes "mn \<noteq> mx" and "Repeat mn mx q = Inr r"
  shows "New_item r = [r]"
proof -
  from assms have "r = potentially50 (Group q) \<or> r = repeat q mn ((mx - mn) + 1)"
    by (auto simp: Repeat_def split: if_splits)
  then show ?thesis by (auto simp: New_item_def)
qed

lemma Potentially_other_kept:
  assumes "\<not> f_eq c (Finite 0)" and "\<not> f_ge c (Finite 1)" and "Potentially c v = Inr r"
  shows "New_item r = [r]"
proof -
  from assms have "r = potentially50 v \<or> r = potentiallyP v c"
    by (auto simp: Potentially_def split: if_splits)
  then show ?thesis by (auto simp: New_item_def)
qed

lemma OneOf_single: "OneOf [v] = v"
  by (simp add: OneOf_def)

lemma OneOf_other_kept: "length ps \<noteq> 1 \<Longrightarrow> New_item (OneOf ps) = [OneOf ps]"
  by (simp add: OneOf_def New_item_def)

lemma Sequence_kept: "Sequence start mx width s = Inr (r, t) \<Longrightarrow> New_item r = [r]"
  by (auto simp: Sequence_def New_item_def split: if_splits)

text \<open>
  Claim C9, as the code has it. \<open>New\<close> goes through its arguments in order: a no-op
  part is dropped, a \<open>group\<close> is replaced by its children (one level, the children are
  not looked into), and every other part is kept as it is. The result of
  \<open>Repeat(k, k, ...)\<close> with \<open>k \<ge> 1\<close> is a \<open>group\<close> and is therefore replaced by its
  children, and the result of \<open>Potentially(0, p)\<close> is the no-op part and is dropped.
  \<open>OneOf\<close> of exactly one child and \<open>Potentially\<close> with a chance \<open>\<ge> 1\<close> return the
  child itself, so that \<open>New\<close> does with the result what it does with the child. Every
  other result is kept as it is: that of \<open>Repeat\<close> with \<open>min \<noteq> max\<close>, of \<open>Potentially\<close>
  with a chance that is neither \<open>0\<close> nor \<open>\<ge> 1\<close>, of \<open>OneOf\<close> with no or several
  children, of \<open>OneOfString\<close>, \<open>OneOfByte\<close> and \<open>OneOfRune\<close>, of \<open>Shuffle\<close> and of
  \<open>Sequence\<close>.
\<close>

theorem C9_New:
  "New p = gen (concat (map New_item p))
   \<and> New_item nullpart = []
   \<and> New_item (group' vs) = vs
   \<and> (v \<noteq> nullpart \<and> (\<forall>ws. v \<noteq> group' ws) \<longrightarrow> New_item v = [v])
   \<and> (0 < k \<longrightarrow> Repeat k k q = Inr (group' (concat (replicate (unat k) q)))
                \<and> New [group' (concat (replicate (unat k) q))] = gen (concat (replicate (unat k) q)))
   \<and> (f_eq c (Finite 0) \<longrightarrow> Potentially c v = Inr nullpart \<and> New [nullpart] = gen [])
   \<and> (f_ge c1 (Finite 1) \<longrightarrow> Potentially c1 v = Inr v)
   \<and> OneOf [v] = v
   \<and> (mn \<noteq> mx \<and> Repeat mn mx q = Inr r \<longrightarrow> New_item r = [r])
   \<and> (\<not> f_eq c2 (Finite 0) \<and> \<not> f_ge c2 (Finite 1) \<and> Potentially c2 v = Inr r2
        \<longrightarrow> New_item r2 = [r2])
   \<and> (length ps \<noteq> 1 \<longrightarrow> New_item (OneOf ps) = [OneOf ps])
   \<and> New_item (OneOfString al) = [OneOfString al]
   \<and> New_item (OneOfByte bl) = [OneOfByte bl]
   \<and> New_item (OneOfRune rl) = [OneOfRune rl]
   \<and> New_item (fst (Shuffle sps s)) = [fst (Shuffle sps s)]
   \<and> (Sequence start smx width s = Inr (r3, t) \<longrightarrow> New_item r3 = [r3])"
proof (intro conjI impI)
  show "New p = gen (concat (map New_item p))" by (rule New_eq)
  show "New_item nullpart = []" by (simp add: New_item_def)
  show "New_item (group' vs) = vs" by (simp add: New_item_def)
  show "v \<noteq> nullpart \<and> (\<forall>ws. v \<noteq> group' ws) \<Longrightarrow> New_item v = [v]"
    by (rule New_item_other)
  show "0 < k \<Longrightarrow> Repeat k k q = Inr (group' (concat (replicate (unat k) q)))"
    by (rule Repeat_const)
  show "New [group' (concat (replicate (unat k) q))] = gen (concat (replicate (unat k) q))"
    by (simp add: New_eq New_item_def)
  show "f_eq c (Finite 0) \<Longrightarrow> Potentially c v = Inr nullpart"
    by (cases c) (simp_all add: Potentially_def f_lt_def f_eq_def)
  show "New [nullpart] = gen []" by (simp add: New_eq New_item_def)
  show "f_ge c1 (Finite 1) \<Longrightarrow> Potentially c1 v = Inr v"
    by (rule Potentially_one)
  show "OneOf [v] = v" by (rule OneOf_single)
  show "New_item r = [r]" if "mn \<noteq> mx \<and> Repeat mn mx q = Inr r"
    using that Repeat_other_kept by blast
  show "New_item r2 = [r2]"
    if "\<not> f_eq c2 (Finite 0) \<and> \<not> f_ge c2 (Finite 1) \<and> Potentially c2 v = Inr r2"
    using that Potentially_other_kept by blast
  show "length ps \<noteq> 1 \<Longrightarrow> New_item (OneOf ps) = [OneOf ps]"
    by (rule OneOf_other_kept)
  show "New_item (OneOfString al) = [OneOfString al]"
    by (simp add: OneOfString_def New_item_def)
  show "New_item (OneOfByte bl) = [OneOfByte bl]"
    by (simp add: OneOfByte_def New_item_def)
  show "New_item (OneOfRune rl) = [OneOfRune rl]"
    by (simp add: OneOfRune_def New_item_def)
  show "New_item (fst (Shuffle sps s)) = [fst (Shuffle sps s)]"
    by (simp add: Shuffle_def New_item_def)
  show "New_item r3 = [r3]" if "Sequence start smx width s = Inr (r3, t)"
    using that by (rule Sequence_kept)
qed

text \<open>
  The witness: among the arguments of \<open>New\<close> are \<open>OneOf(Group(a, b))\<close>, which is the
  group and is replaced by \<open>a\<close> and \<open>b\<close>, \<open>OneOf\<close> of the no-op part, which is dropped,
  and \<open>OneOf(a, b)\<close>, \<open>Repeat(1, 3, a)\<close>, \<open>Potentially(0.3, a)\<close> and \<open>Sequence(1, 9, 2)\<close>,
  which are kept.
\<close>

theorem C9_New_witness:
  "literal (bytes_of ''a'') \<noteq> nullpart \<and> (\<forall>ws. literal (bytes_of ''a'') \<noteq> group' ws)
   \<and> New_item (literal (bytes_of ''a'')) = [literal (bytes_of ''a'')]
   \<and> (0::uint32) < 2
   \<and> Repeat 2 2 [] = Inr (group' (concat (replicate (unat (2::uint32)) [])))
   \<and> f_eq (Finite 0) (Finite 0)
   \<and> Potentially (Finite 0) (literal (bytes_of ''a'')) = Inr nullpart
   \<and> f_ge (Finite 1) (Finite 1)
   \<and> Potentially (Finite 1) (literal (bytes_of ''a'')) = Inr (literal (bytes_of ''a''))
   \<and> (1::uint32) \<noteq> 3
   \<and> Repeat 1 3 [] = Inr (repeat [] 1 3)
   \<and> New_item (repeat [] 1 3) = [repeat [] 1 3]
   \<and> \<not> f_eq (Finite (3 / 10)) (Finite 0) \<and> \<not> f_ge (Finite (3 / 10)) (Finite 1)
   \<and> Potentially (Finite (3 / 10)) (literal (bytes_of ''a''))
       = Inr (potentiallyP (literal (bytes_of ''a'')) (Finite (3 / 10)))
   \<and> New_item (potentiallyP (literal (bytes_of ''a'')) (Finite (3 / 10)))
       = [potentiallyP (literal (bytes_of ''a'')) (Finite (3 / 10))]
   \<and> length [literal (bytes_of ''a''), literal (bytes_of ''b'')] \<noteq> 1
   \<and> New_item (OneOf [literal (bytes_of ''a''), literal (bytes_of ''b'')])
       = [OneOf [literal (bytes_of ''a''), literal (bytes_of ''b'')]]
   \<and> Sequence 1 9 2 (st0 (\<lambda>_. 0)) = Inr (sequence 1 9 2 0, (st0 (\<lambda>_. 0))\<lparr>cells := (\<lambda>_. 0)(0 := 0), nxt := 1\<rparr>)
   \<and> New_item (sequence 1 9 2 0) = [sequence 1 9 2 0]
   \<and> New [literal (bytes_of ''a''), nullpart, group' [nullpart, group' []]]
       = gen (concat (map New_item [literal (bytes_of ''a''), nullpart, group' [nullpart, group' []]]))
   \<and> New [OneOf [group' [literal (bytes_of ''a''), literal (bytes_of ''b'')]],
           OneOf [nullpart],
           OneOf [literal (bytes_of ''a''), literal (bytes_of ''b'')]]
       = gen [literal (bytes_of ''a''), literal (bytes_of ''b''),
              OneOf [literal (bytes_of ''a''), literal (bytes_of ''b'')]]"
proof -
  let ?a = "literal (bytes_of ''a'')"
  let ?b = "literal (bytes_of ''b'')"
  let ?s = "st0 (\<lambda>_. 0)"
  let ?P = "potentiallyP ?a (Finite (3 / 10))"
  have a: "?a \<noteq> nullpart \<and> (\<forall>ws. ?a \<noteq> group' ws)" by simp
  have h: "(0::uint32) < 2" by simp
  have z: "f_eq (Finite 0) (Finite 0)" by (simp add: f_eq_def)
  have o: "f_ge (Finite 1) (Finite 1)" by (simp add: f_ge_def)
  have m: "(1::uint32) \<noteq> 3" by simp
  have r: "Repeat 1 3 [] = Inr (repeat [] 1 3)" by (simp add: Repeat_def)
  have c: "\<not> f_eq (Finite (3 / 10)) (Finite 0) \<and> \<not> f_ge (Finite (3 / 10)) (Finite 1)"
    by (simp add: f_eq_def f_ge_def)
  have pp: "Potentially (Finite (3 / 10)) ?a = Inr ?P"
    by (simp add: Potentially_def f_lt_def f_eq_def f_ge_def)
  have l: "length [?a, ?b] \<noteq> 1" by simp
  have sq: "Sequence 1 9 2 ?s = Inr (sequence 1 9 2 0, ?s\<lparr>cells := (\<lambda>_. 0)(0 := 0), nxt := 1\<rparr>)"
    by (simp add: Sequence_def st0_def)
  have n: "New [OneOf [group' [?a, ?b]], OneOf [nullpart], OneOf [?a, ?b]]
             = gen [?a, ?b, OneOf [?a, ?b]]"
    by (simp add: New_eq New_item_def OneOf_def)
  from C9_New [where p = "[?a, nullpart, group' [nullpart, group' []]]" and vs = "[]"
                 and v = ?a and k = 2 and q = "[]" and c = "Finite 0" and ?c1.0 = "Finite 1"
                 and mn = 1 and mx = 3 and r = "repeat [] 1 3"
                 and ?c2.0 = "Finite (3 / 10)" and ?r2.0 = ?P
                 and ps = "[?a, ?b]" and start = 1 and smx = 9 and width = 2 and s = ?s
                 and ?r3.0 = "sequence 1 9 2 0" and t = "?s\<lparr>cells := (\<lambda>_. 0)(0 := 0), nxt := 1\<rparr>"]
       a h z o m r c pp l sq n
  show ?thesis by blast
qed


text \<open>
  Claim C9 as stated fails: the result of \<open>Repeat(2, 2, Literal("o"))\<close> is not kept as
  it is, \<open>New\<close> replaces it by the two literals; and the result of \<open>OneOf\<close> of one
  \<open>group\<close> is that \<open>group\<close>, which \<open>New\<close> replaces by its children.
\<close>

theorem C9_New_counterexample:
  "Repeat 2 2 [Literal (bytes_of ''o'')]
     = Inr (group' [literal (bytes_of ''o''), literal (bytes_of ''o'')])
   \<and> New [group' [literal (bytes_of ''o''), literal (bytes_of ''o'')]]
     = gen [literal (bytes_of ''o''), literal (bytes_of ''o'')]
   \<and> New [group' [literal (bytes_of ''o''), literal (bytes_of ''o'')]]
     \<noteq> gen [group' [literal (bytes_of ''o''), literal (bytes_of ''o'')]]
   \<and> OneOf [group' [literal (bytes_of ''a''), literal (bytes_of ''b'')]]
     = group' [literal (bytes_of ''a''), literal (bytes_of ''b'')]
   \<and> New [OneOf [group' [literal (bytes_of ''a''), literal (bytes_of ''b'')]]]
     = gen [literal (bytes_of ''a''), literal (bytes_of ''b'')]
   \<and> New [OneOf [group' [literal (bytes_of ''a''), literal (bytes_of ''b'')]]]
     \<noteq> gen [OneOf [group' [literal (bytes_of ''a''), literal (bytes_of ''b'')]]]"
  by code_simp

section \<open>The integer formatter and Sequence\<close>

lemma dec_nonempty: "dec n \<noteq> []"
  by (subst dec.simps) simp

lemma length_dec_pos: "0 < length (dec n)"
  using dec_nonempty [of n] by simp

lemma dec_small: "n < 10 \<Longrightarrow> dec n = [48 + of_nat n]"
  by (subst dec.simps) simp

lemma dec_large: "10 \<le> n \<Longrightarrow> dec n = dec (n div 10) @ [48 + of_nat (n mod 10)]"
  by (subst dec.simps) simp

lemma word_gt0_unat: "(0 < (u::uint64)) = (0 < unat u)"
  by (simp add: word_less_nat_alt)

lemma word_ge10_unat: "(10 \<le> (u::uint64)) = (10 \<le> unat u)"
  by (simp add: word_le_nat_alt)

lemma unat_div10: "unat ((u::uint64) div 10) = unat u div 10"
  by (simp add: unat_div)

lemma count_digits_eq:
  "count_digits u n = n + (if u = 0 then 0 else int (length (dec (unat u))))"
proof (induction u n rule: count_digits.induct)
  case (1 u n)
  show ?case
  proof (cases "0 < u")
    case False
    then have "u = 0" by (simp add: word_gt0_unat unat_eq_0)
    then show ?thesis by (subst count_digits.simps) simp
  next
    case True
    then have u0: "u \<noteq> 0" by auto
    have step: "count_digits u n = count_digits (u div 10) (n + 1)"
      using True by (subst count_digits.simps) simp
    show ?thesis
    proof (cases "unat u < 10")
      case small: True
      then have "unat (u div 10) = 0" by (simp add: unat_div10)
      then have "u div 10 = 0" by (simp add: unat_eq_0)
      with 1 [OF True] step small u0 show ?thesis by (simp add: dec_small)
    next
      case large: False
      then have "unat (u div 10) \<noteq> 0" by (simp add: unat_div10)
      then have "u div 10 \<noteq> 0" by (simp add: unat_eq_0)
      with 1 [OF True] step large u0 show ?thesis by (simp add: dec_large unat_div10)
    qed
  qed
qed

lemma ndigits_eq: "ndigits u = int (length (dec (unat u)))"
proof (cases "u = 0")
  case True
  have "dec 0 = [48]" by (subst dec.simps) simp
  with True show ?thesis by (simp only: ndigits_def count_digits_eq) simp
next
  case False
  then show ?thesis by (simp only: ndigits_def count_digits_eq) simp
qed

lemma sint_diff_small:
  fixes w :: int64
  assumes "- (2 ^ 63) \<le> sint w - k" "sint w - k < 2 ^ 63"
  shows "sint (w - word_of_int k) = sint w - k"
proof -
  have "sint (w - word_of_int k) = signed_take_bit 63 (sint w - sint (word_of_int k :: int64))"
    by (simp add: sint_word_diff)
  also have "\<dots> = signed_take_bit 63 (sint w - k)"
    using signed_take_bit_diff [of 63 "sint w" "signed_take_bit 63 k"]
          signed_take_bit_diff [of 63 "sint w" k]
    by (simp add: signed_of_int)
  also have "\<dots> = sint w - k"
    using assms by (simp add: signed_take_bit_int_eq_self)
  finally show ?thesis .
qed

lemma sint_pred:
  fixes w :: int64
  assumes "0 < sint w"
  shows "sint (w - 1) = sint w - 1"
  using sint_diff_small [of w 1] assms sint_lt [of w] by simp

lemma pad_zeros_eq: "pad_zeros pad b = b @ replicate (nat (sint pad)) 48"
proof (induction pad b rule: pad_zeros.induct)
  case (1 pad b)
  show ?case
  proof (cases "0 < sint pad")
    case True
    then have n: "nat (sint pad) = Suc (nat (sint pad - 1))" by simp
    from 1 [OF True] True show ?thesis
      by (subst pad_zeros.simps) (simp add: sint_pred n)
  next
    case False
    then show ?thesis by (subst pad_zeros.simps) simp
  qed
qed


lemma itob_eq: "itob u = 48 + of_nat (unat u)"
  by (simp add: itob_def)

lemma last_digit: "u - (u div 10) * 10 = (u::uint64) mod 10"
  by (simp add: minus_div_mult_eq_mod)

lemma itob_last_digit: "itob (u - (u div 10) * 10) = 48 + of_nat (unat u mod 10)"
  by (simp only: last_digit itob_eq unat_mod) simp

lemma length_dec_one: "length (dec n) = Suc 0 \<longleftrightarrow> n < 10"
proof (cases "n < 10")
  case True
  then show ?thesis by (simp add: dec_small)
next
  case False
  then show ?thesis using length_dec_pos [of "n div 10"] by (simp add: dec_large)
qed

lemma set_at_mid: "set_at (pre @ y # suf) (int (length pre)) v = Inr (pre @ v # suf)"
  by (simp add: set_at_def)

lemma digits_loop_dec:
  assumes "length xs + 1 = length (dec (unat u))"
  shows "\<exists>u'. digits_loop (pre @ x # xs @ suf) u (int (length pre) + int (length xs))
               = Inr (pre @ x # tl (dec (unat u)) @ suf, u', int (length pre))
             \<and> itob u' = hd (dec (unat u))"
  using assms
proof (induction xs arbitrary: u suf rule: rev_induct)
  case Nil
  then have "length (dec (unat u)) = Suc 0" by simp
  then have small: "unat u < 10" by (simp only: length_dec_one)
  then have "\<not> 10 \<le> u" by (simp add: word_ge10_unat)
  then have "digits_loop (pre @ x # [] @ suf) u (int (length pre) + int (length ([]::bytes)))
             = Inr (pre @ x # [] @ suf, u, int (length pre))"
    by (subst digits_loop.simps) simp
  moreover have "tl (dec (unat u)) = []" "itob u = hd (dec (unat u))"
    using small by (simp_all add: dec_small itob_eq)
  ultimately show ?case by simp
next
  case (snoc y xs)
  from snoc.prems have "length (dec (unat u)) \<noteq> Suc 0" by simp
  then have large: "10 \<le> unat u" by (simp only: length_dec_one not_less)
  then have ge: "10 \<le> u" by (simp add: word_ge10_unat)
  let ?d = "48 + of_nat (unat u mod 10) :: byte"
  have decu: "dec (unat u) = dec (unat (u div 10)) @ [?d]"
    using large by (simp add: dec_large unat_div10)
  with snoc.prems have len: "length xs + 1 = length (dec (unat (u div 10)))" by simp
  have sa: "set_at (pre @ x # (xs @ [y]) @ suf) (int (length pre) + int (length (xs @ [y])))
              (itob (u - (u div 10) * 10)) = Inr (pre @ x # xs @ ?d # suf)"
    using set_at_mid [of "pre @ x # xs" y suf ?d]
    by (simp add: itob_last_digit add.commute add.left_commute)
  have step: "digits_loop (pre @ x # (xs @ [y]) @ suf) u (int (length pre) + int (length (xs @ [y])))
              = digits_loop (pre @ x # xs @ ?d # suf) (u div 10) (int (length pre) + int (length xs))"
    using ge sa by (subst digits_loop.simps) (simp add: Let_def)
  from snoc.IH [OF len, of "?d # suf"] obtain u' where
    u': "digits_loop (pre @ x # xs @ ?d # suf) (u div 10) (int (length pre) + int (length xs))
           = Inr (pre @ x # tl (dec (unat (u div 10))) @ ?d # suf, u', int (length pre))"
    and hd: "itob u' = hd (dec (unat (u div 10)))" by blast
  have "tl (dec (unat u)) = tl (dec (unat (u div 10))) @ [?d]"
       "hd (dec (unat u)) = hd (dec (unat (u div 10)))"
    using dec_nonempty [of "unat (u div 10)"] by (simp_all add: decu)
  with step u' hd show ?case by simp
qed

lemma appendInt_fill_eq:
  assumes "length fill = length (dec (unat u))"
  shows "appendInt_fill fill b u width = Inr (b @ wrap_padded width (unat u))"
proof -
  from assms length_dec_pos [of "unat u"] obtain x xs where fill: "fill = x # xs"
    by (cases fill) auto
  with assms have len: "length xs + 1 = length (dec (unat u))" by simp
  define pre where "pre = b @ replicate (pad_count width (unat u)) 48"
  from digits_loop_dec [OF len, of pre x "[]"] obtain u' where
    u': "digits_loop (pre @ x # xs) u (int (length pre) + int (length xs))
           = Inr (pre @ x # tl (dec (unat u)), u', int (length pre))"
    and hd: "itob u' = hd (dec (unat u))" by auto
  have i: "int (length (pre @ x # xs)) - 1 = int (length pre) + int (length xs)"
    by simp
  have A: "pad_zeros (width - word_of_int (ndigits u)) b = pre"
    by (simp only: pad_zeros_eq ndigits_eq pre_def pad_count_def of_int_of_nat_eq)
  have B: "appendInt_fill fill b u width =
        (case digits_loop (pre @ x # xs) u (int (length (pre @ x # xs)) - 1) of
           Inl e \<Rightarrow> Inl e
         | Inr (b, u, i) \<Rightarrow> set_at b i (itob u))"
    by (simp only: appendInt_fill_def Let_def A fill)
  have "hd (dec (unat u)) # tl (dec (unat u)) = dec (unat u)"
    using dec_nonempty [of "unat u"] by simp
  then have C: "set_at (pre @ x # tl (dec (unat u))) (int (length pre)) (itob u')
        = Inr (pre @ dec (unat u))"
    by (simp only: set_at_mid hd)
  have "appendInt_fill fill b u width = Inr (pre @ dec (unat u))"
    by (simp only: B i u' sum.case prod.case C)
  also have "pre @ dec (unat u) = b @ wrap_padded width (unat u)"
    by (simp only: pre_def wrap_padded_def append_assoc)
  finally show ?thesis .
qed

lemma appendInt_eq: "appendInt b u width = Inr (b @ wrap_padded width (unat u))"
  unfolding appendInt_def by (rule appendInt_fill_eq) (simp add: ndigits_eq)


lemma Append_sequence:
  "Append (sequence start mx width a) (b, t)
     = Inr (b @ wrap_padded width (unat (seq_next start mx (cells t a))),
            t\<lparr>cells := (cells t)(a := seq_next start mx (cells t a))\<rparr>)"
  by (simp add: Let_def appendInt_eq seq_next_def)

lemma seq_next_first: "start \<le> mx \<Longrightarrow> seq_next start mx (start - 1) = start"
  by (simp add: seq_next_def not_less)

lemma seq_next_wrap: "seq_next start mx (- 1) = start"
proof (cases "start = 0")
  case True
  then show ?thesis by (simp add: seq_next_def)
next
  case False
  then have "0 < start" by (simp add: word_neq_0_conv)
  then show ?thesis by (simp add: seq_next_def)
qed

lemma seq_next_max: "seq_next start mx mx = start"
proof (cases "mx = - 1")
  case True
  then show ?thesis by (simp only: seq_next_wrap)
next
  case False
  then have "\<not> mx + 1 \<le> mx" by (simp add: inc_less_eq_self_iff_eq)
  then have "mx < mx + 1" by (simp only: not_le)
  then show ?thesis by (simp add: seq_next_def)
qed

lemma seq_next_step:
  assumes "start \<le> lst" "lst < mx"
  shows "seq_next start mx lst = lst + 1" and "unat (lst + 1) = unat lst + 1"
proof -
  from assms(2) have le: "lst + 1 \<le> mx" by (rule inc_le)
  from assms(2) have "lst \<noteq> - 1"
    using word_order.extremum_strict by auto 
  then have "\<not> lst + 1 \<le> lst" by (simp add: inc_less_eq_self_iff_eq)
  then have lt: "lst < lst + 1" by (simp only: not_le)
  with assms(1) have "start \<le> lst + 1" by simp
  with le have "\<not> mx < lst + 1" "\<not> lst + 1 < start" by (simp_all only: not_less)
  then show "seq_next start mx lst = lst + 1"
    by (simp add: seq_next_def)
  from \<open>lst \<noteq> - 1\<close> have "1 + lst \<noteq> 0"
    using max_word_wrap [of lst] by (auto simp: add.commute)
  then have "unat (1 + lst) = Suc (unat lst)" by (rule unatSuc)
  then show "unat (lst + 1) = unat lst + 1" by (simp add: add.commute)
qed

lemma length_dec_le: "n < 10 ^ Suc k \<Longrightarrow> length (dec n) \<le> Suc k"
proof (induction k arbitrary: n)
  case 0
  then show ?case by (simp add: dec_small)
next
  case (Suc k)
  show ?case
  proof (cases "n < 10")
    case True
    then show ?thesis by (simp add: dec_small)
  next
    case False
    from Suc.prems have "n div 10 < 10 ^ Suc k" by simp
    from Suc.IH [OF this] False show ?thesis by (simp add: dec_large)
  qed
qed

lemma length_dec_unat: "length (dec (unat (u :: uint64))) \<le> 20"
proof -
  have "unat u < 2 ^ 64" using unsigned_less [of u] by simp
  also have "(2::nat) ^ 64 < 10 ^ Suc 19" by simp
  finally show ?thesis using length_dec_le [of "unat u" 19] by simp
qed

text \<open>
  Where \<open>width - n\<close> does not wrap the formatter pads to \<open>width\<close>; this is so for every
  \<open>width\<close> of at least \<open>- 2^63 + 20\<close>, a 64-bit number having at most 20 digits.
\<close>

lemma wrap_padded_no_wrap:
  assumes "- (2 ^ 63) \<le> sint width - int (length (dec n))"
  shows "wrap_padded width n = zero_padded (sint width) n"
proof -
  have "sint width - int (length (dec n)) < 2 ^ 63"
    using sint_lt [of width] by simp
  with assms have "sint (width - word_of_int (int (length (dec n))))
                   = sint width - int (length (dec n))"
    by (rule sint_diff_small)
  then show ?thesis
    by (simp add: wrap_padded_def pad_count_def zero_padded_def)
qed

lemma wrap_padded_in_range:
  assumes "- (2 ^ 63) + 20 \<le> sint width"
  shows "wrap_padded width (unat (u :: uint64)) = zero_padded (sint width) (unat u)"
proof (rule wrap_padded_no_wrap)
  from assms length_dec_unat [of u]
  show "- (2 ^ 63) \<le> sint width - int (length (dec (unat u)))" by simp
qed

text \<open>
  For \<open>max \<ge> start\<close>, \<open>Sequence(start, max, width)\<close> allocates a counter holding
  \<open>start - 1\<close> (wrapping for \<open>start = 0\<close>). Every \<open>Append\<close> reads the counter as \<open>lst\<close>,
  takes \<open>curr = lst + 1\<close>, or \<open>start\<close> when \<open>curr > max\<close> or \<open>curr < start\<close>, stores
  \<open>curr\<close> in the counter and appends the decimal digits of \<open>curr\<close> behind the padding.
  So the first call emits \<open>start\<close>, the call after \<open>max\<close> emits \<open>start\<close>, a counter
  holding \<open>2^64 - 1\<close> is followed by \<open>start\<close>, and between \<open>start\<close> and \<open>max\<close> the value
  goes up by one. For a \<open>width\<close> of at least \<open>- 2^63 + 20\<close> the padding is the padding
  with \<open>'0'\<close> to \<open>width\<close>.
\<close>

lemma Sequence_in_range:
  assumes "start \<le> mx" and "- (2 ^ 63) + 20 \<le> sint width"
  shows "Sequence start mx width s
           = Inr (sequence start mx width (nxt s),
                  s\<lparr>cells := (cells s)(nxt s := start - 1), nxt := nxt s + 1\<rparr>)
         \<and> Append (sequence start mx width a) (b, t)
           = Inr (b @ zero_padded (sint width) (unat (seq_next start mx (cells t a))),
                  t\<lparr>cells := (cells t)(a := seq_next start mx (cells t a))\<rparr>)
         \<and> seq_next start mx (start - 1) = start
         \<and> seq_next start mx mx = start
         \<and> seq_next start mx (- 1) = start
         \<and> (start \<le> lst \<and> lst < mx \<longrightarrow>
              seq_next start mx lst = lst + 1 \<and> unat (lst + 1) = unat lst + 1)"
proof (intro conjI impI)
  from assms(1) show "Sequence start mx width s
           = Inr (sequence start mx width (nxt s),
                  s\<lparr>cells := (cells s)(nxt s := start - 1), nxt := nxt s + 1\<rparr>)"
    by (simp add: Sequence_def not_less)
  show "Append (sequence start mx width a) (b, t)
           = Inr (b @ zero_padded (sint width) (unat (seq_next start mx (cells t a))),
                  t\<lparr>cells := (cells t)(a := seq_next start mx (cells t a))\<rparr>)"
    by (simp only: Append_sequence wrap_padded_in_range [OF assms(2)])
  from assms(1) show "seq_next start mx (start - 1) = start" by (rule seq_next_first)
  show "seq_next start mx mx = start" by (rule seq_next_max)
  show "seq_next start mx (- 1) = start" by (rule seq_next_wrap)
  show "seq_next start mx lst = lst + 1" if "start \<le> lst \<and> lst < mx"
    using that seq_next_step(1) by blast
  show "unat (lst + 1) = unat lst + 1" if "start \<le> lst \<and> lst < mx"
    using that seq_next_step(2) by blast
qed

lemma Sequence_examples:
  "first_two (Sequence 0 100 4 (st0 (\<lambda>_. 0))) = (Inr (bytes_of ''0000''), Inr (bytes_of ''0001''))
   \<and> out (Append (sequence 1 (- 1) 0 0) ([], (st0 (\<lambda>_. 0))\<lparr>cells := (\<lambda>_. - 1)\<rparr>))
       = Inr (bytes_of ''1'')"
  by code_simp

lemma first_two_Sequence:
  assumes "start \<le> mx"
  shows "first_two (Sequence start mx width s)
           = (Inr (wrap_padded width (unat start)),
              Inr (wrap_padded width (unat (seq_next start mx start))))"
proof -
  let ?p = "sequence start mx width (nxt s)"
  let ?s1 = "s\<lparr>cells := (cells s)(nxt s := start - 1), nxt := nxt s + 1\<rparr>"
  let ?s2 = "?s1\<lparr>cells := (cells ?s1)(nxt s := start)\<rparr>"
  from assms have c: "Sequence start mx width s = Inr (?p, ?s1)"
    by (simp add: Sequence_def not_less)
  have n1: "seq_next start mx (cells ?s1 (nxt s)) = start"
    using seq_next_first [OF assms] by simp
  have a1: "Append ?p ([], ?s1) = Inr (wrap_padded width (unat start), ?s2)"
    by (simp only: Append_sequence n1 append_Nil)
  have n2: "seq_next start mx (cells ?s2 (nxt s)) = seq_next start mx start"
    by simp
  have a2: "out (Append ?p ([], ?s2)) = Inr (wrap_padded width (unat (seq_next start mx start)))"
    by (simp only: Append_sequence n2 append_Nil out_def sum.case prod.case)
  show ?thesis
    by (simp only: first_two_def c a1 a2 sum.case prod.case)
qed

lemma pad_count_MinInt64: "n < 10 \<Longrightarrow> pad_count MinInt64 n = 9223372036854775807"
  by (simp add: pad_count_def dec_small MinInt64_def)

text \<open>
  Claim C1. The counter of a \<open>Sequence\<close> behaves as the claim says, and for every
  \<open>width\<close> of at least \<open>- 2^63 + 20\<close> the number is padded with \<open>'0'\<close> to \<open>width\<close>
  (\<open>Sequence_in_range\<close>). The padding is not the padding to \<open>width\<close> for every \<open>width\<close>:
  the formatter starts its padding loop at \<open>width - n\<close>, \<open>n\<close> the number of digits, and
  for a \<open>width\<close> within \<open>n\<close> of the smallest 64-bit integer that difference wraps to a
  large positive number. \<open>Sequence(0, 9, MinInt64)\<close> is constructed without error;
  padded to its negative width the first two numbers are \<open>"0"\<close> and \<open>"1"\<close>, and what
  \<open>Append\<close> computes is each of them behind \<open>2^63 - 1\<close> zeros.
\<close>

theorem C1_Sequence_MinInt64:
  "first_two (Sequence 0 9 MinInt64 (st0 (\<lambda>_. 0)))
     = (Inr (replicate 9223372036854775807 48 @ bytes_of ''0''),
        Inr (replicate 9223372036854775807 48 @ bytes_of ''1''))
   \<and> zero_padded (sint MinInt64) 0 = bytes_of ''0''
   \<and> zero_padded (sint MinInt64) 1 = bytes_of ''1''
   \<and> sint MinInt64 = - 9223372036854775808"
proof (intro conjI)
  have le: "(0::uint64) \<le> 9" by simp
  have nx: "seq_next 0 9 (0::uint64) = 1" by (simp add: seq_next_def)
  have d0: "dec 0 = bytes_of ''0''" and d1: "dec 1 = bytes_of ''1''"
    by (simp_all add: dec_small bytes_of_def)
  have p0: "pad_count MinInt64 0 = 9223372036854775807"
    and p1: "pad_count MinInt64 1 = 9223372036854775807"
    by (rule pad_count_MinInt64, simp)+
  have w0: "wrap_padded MinInt64 0 = replicate 9223372036854775807 48 @ bytes_of ''0''"
    by (simp only: wrap_padded_def p0 d0)
  have w1: "wrap_padded MinInt64 1 = replicate 9223372036854775807 48 @ bytes_of ''1''"
    by (simp only: wrap_padded_def p1 d1)
  show "first_two (Sequence 0 9 MinInt64 (st0 (\<lambda>_. 0)))
     = (Inr (replicate 9223372036854775807 48 @ bytes_of ''0''),
        Inr (replicate 9223372036854775807 48 @ bytes_of ''1''))"
    by (simp only: first_two_Sequence [OF le] nx unat_0 unat_1 w0 w1)
  show "zero_padded (sint MinInt64) 0 = bytes_of ''0''"
    by (simp add: zero_padded_def d0 MinInt64_def)
  have "length (dec 1) = 1" by (simp only: d1) (simp add: bytes_of_def)
  then show "zero_padded (sint MinInt64) 1 = bytes_of ''1''"
    by (simp only: zero_padded_def d1) (simp add: MinInt64_def bytes_of_def)
  show "sint MinInt64 = - 9223372036854775808" by (simp add: MinInt64_def)
qed

section \<open>Append extends the buffer\<close>







section \<open>Repeat with a random count\<close>

lemma RandN_val_zero: "RandN_val 0 r = 0"
proof -
  have "unat (RandN_val 0 r) = 0" by (simp only: unat_RandN_val) simp
  then show ?thesis by (simp only: unat_eq_0)
qed

lemma count_hits_eq: "count_hits mn mx c = hits ((mx - mn) + 1) (c - mn)"
proof -
  have "\<And>v. (v + mn = c) = (v = c - mn)" by auto
  then show ?thesis by (simp only: count_hits_def hits_def)
qed

lemma unat_sub_le: "(a::uint32) \<le> b \<Longrightarrow> unat (b - a) = unat b - unat a"
  by (simp add: unat_sub)

lemma unat_m1_32: "unat (- 1 :: uint32) = 4294967295"
  by (simp add: unsigned_minus_1_eq_mask mask_eq_exp_minus_1)

lemma unat_width:
  assumes "mn \<le> mx" "\<not> (mn = 0 \<and> mx = - 1)"
  shows "unat ((mx - mn) + 1 :: uint32) = unat mx - unat mn + 1"
proof -
  have "mx - mn \<noteq> - 1"
  proof
    assume e: "mx - mn = - 1"
    then have "unat (mx - mn) = unat (- 1 :: uint32)" by simp
    with assms(1) have u: "unat mx - unat mn = 4294967295" by (simp add: unat_sub_le unat_m1_32)
    have "unat mx < 4294967296" using unat_lt_32 [of mx] by simp
    with u have "unat mn = 0" "unat mx = 4294967295" by linarith+
    then have "mn = 0" "unat mx = unat (- 1 :: uint32)" by (simp_all add: unat_eq_0 unat_m1_32)
    then have "mn = 0" "mx = - 1" by (simp_all only: word_unat_eq_iff)
    with assms(2) show False by simp
  qed
  then have "1 + (mx - mn) \<noteq> 0"
    using max_word_wrap [of "mx - mn"] by (auto simp: add.commute)
  then have "unat (1 + (mx - mn)) = Suc (unat (mx - mn))" by (rule unatSuc)
  with assms(1) show ?thesis by (simp add: add.commute unat_sub_le)
qed

lemma repeat_count_range:
  assumes "mn \<le> mx"
  shows "mn \<le> RandN_val ((mx - mn) + 1) r + mn \<and> RandN_val ((mx - mn) + 1) r + mn \<le> mx"
proof (cases "mn = 0 \<and> mx = - 1")
  case True
  then show ?thesis by (simp add: RandN_val_zero)
next
  case False
  let ?v = "RandN_val ((mx - mn) + 1) r"
  from assms False have w: "unat ((mx - mn) + 1) = unat mx - unat mn + 1" by (rule unat_width)
  then have "(mx - mn) + 1 \<noteq> 0" by (auto simp: unat_eq_0 [symmetric])
  then have "0 < (mx - mn) + 1" by (simp add: word_neq_0_conv)
  then have "?v < (mx - mn) + 1" by (rule RandN_val_less)
  then have v: "unat ?v \<le> unat mx - unat mn" by (simp add: word_less_nat_alt w)
  from assms have le: "unat mn \<le> unat mx" by (simp add: word_le_nat_alt)
  have "unat mx < 4294967296" using unat_lt_32 [of mx] by simp
  with v le have "unat ?v + unat mn < 2 ^ 32" by simp
  then have sum: "unat (?v + mn) = unat ?v + unat mn"
    by (simp add: unat_add_lem [THEN iffD1])
  with v le show ?thesis by (simp add: word_le_nat_alt)
qed

lemma count_hits_bounds:
  assumes "mn \<le> mx" "\<not> (mn = 0 \<and> mx = - 1)" "mn \<le> c" "c \<le> mx"
  shows "2 ^ 64 div (unat mx - unat mn + 1) \<le> count_hits mn mx c"
    and "count_hits mn mx c \<le> 2 ^ 64 div (unat mx - unat mn + 1) + 1"
proof -
  from assms(1,2) have w: "unat ((mx - mn) + 1) = unat mx - unat mn + 1" by (rule unat_width)
  from assms(3,4) have "unat (c - mn) = unat c - unat mn" "unat c \<le> unat mx" "unat mn \<le> unat c"
    by (simp_all add: unat_sub_le word_le_nat_alt)
  then have "unat (c - mn) < unat ((mx - mn) + 1)" by (simp add: w)
  then have lt: "c - mn < (mx - mn) + 1" by (simp only: word_less_nat_alt)
  from card_RandN_val_bounds(1) [OF lt]
  show "2 ^ 64 div (unat mx - unat mn + 1) \<le> count_hits mn mx c"
    by (simp only: count_hits_eq w)
  from card_RandN_val_bounds(2) [OF lt]
  show "count_hits mn mx c \<le> 2 ^ 64 div (unat mx - unat mn + 1) + 1"
    by (simp only: count_hits_eq w)
qed

lemma Repeat_general:
  assumes "mn < mx" "\<not> (mn = 0 \<and> mx = 1)"
  shows "Repeat mn mx p = Inr (repeat p mn ((mx - mn) + 1))"
proof -
  from assms(1) have "mx \<noteq> 0" "\<not> mx < mn" "mn \<noteq> mx" by auto
  with assms(2) show ?thesis by (simp add: Repeat_def)
qed

lemma Append_repeat:
  "Append (repeat p mn maxr) (b, s)
     = ntimes (unat (RandN_val maxr (rnd s (pos s)) + mn)) (each Append p)
         (b, s\<lparr>pos := pos s + 1\<rparr>)"
  by (simp add: RandN_eq)

lemma count_hits_1_3_1: "count_hits 1 3 1 = hits 3 0"
  by (simp add: count_hits_eq)

lemma count_hits_1_3_2: "count_hits 1 3 2 = hits 3 1"
  by (simp add: count_hits_eq)

lemma RandN_val_3_mid: "RandN_val 3 9223372036854775808 = 1"
proof -
  have "unat (RandN_val 3 9223372036854775808) = unat (1::uint32)"
    by (simp add: unat_RandN_val)
  then show ?thesis by (simp only: word_unat_eq_iff)
qed

lemma repeat_example:
  "out (Append (repeat [literal (bytes_of ''o'')] 1 ((3 - 1) + 1)) ([], st0 (\<lambda>_. 9223372036854775808)))
     = Inr (bytes_of ''oo'')"
proof -
  have n: "ntimes 2 f c = (case f c of Inl e \<Rightarrow> Inl e | Inr c' \<Rightarrow> ntimes (Suc 0) f c')" for f c
    by (simp add: numeral_2_eq_2)
  show ?thesis
    by (simp add: Append_repeat st0_def RandN_val_3_mid n out_def bytes_of_def del: Append.simps(4))
qed

text \<open>
  Claim C4, as the code has it. In the general case (\<open>max > min\<close>, not \<open>min = 0\<close> and
  \<open>max = 1\<close>) \<open>Repeat\<close> stores the children, \<open>min\<close> and \<open>max - min + 1\<close>; each \<open>Append\<close>
  draws one raw value, takes \<open>n = RandN(max - min + 1) + min\<close> and appends the children
  \<open>n\<close> times. For every raw value \<open>n\<close> lies in \<open>[min, max]\<close>. Unless \<open>min = 0\<close> and
  \<open>max = 2^32 - 1\<close> (where the 32-bit width wraps to 0), every count in \<open>[min, max]\<close> is
  drawn by \<open>2^64 div w\<close> or \<open>2^64 div w + 1\<close> of the raw values, \<open>w = max - min + 1\<close>.
\<close>

theorem C4_Repeat_general:
  assumes "mn < mx" and "\<not> (mn = 0 \<and> mx = 1)"
  shows "Repeat mn mx p = Inr (repeat p mn ((mx - mn) + 1))
         \<and> Append (repeat p mn ((mx - mn) + 1)) (b, s)
             = ntimes (unat (RandN_val ((mx - mn) + 1) (rnd s (pos s)) + mn)) (each Append p)
                 (b, s\<lparr>pos := pos s + 1\<rparr>)
         \<and> mn \<le> RandN_val ((mx - mn) + 1) r + mn
         \<and> RandN_val ((mx - mn) + 1) r + mn \<le> mx
         \<and> (\<not> (mn = 0 \<and> mx = - 1) \<longrightarrow>
              (\<forall>c. mn \<le> c \<and> c \<le> mx \<longrightarrow>
                 2 ^ 64 div (unat mx - unat mn + 1) \<le> count_hits mn mx c
                 \<and> count_hits mn mx c \<le> 2 ^ 64 div (unat mx - unat mn + 1) + 1))"
proof -
  from assms(1) have le: "mn \<le> mx" by simp
  show ?thesis
    using Repeat_general [OF assms] Append_repeat repeat_count_range [OF le]
      count_hits_bounds [OF le]
    by blast
qed

theorem C4_Repeat_witness:
  "(1::uint32) < 3 \<and> \<not> ((1::uint32) = 0 \<and> (3::uint32) = 1)
   \<and> \<not> ((1::uint32) = 0 \<and> (3::uint32) = - 1)
   \<and> (1::uint32) \<le> 2 \<and> (2::uint32) \<le> 3
   \<and> Repeat 1 3 [literal (bytes_of ''o'')] = Inr (repeat [literal (bytes_of ''o'')] 1 ((3 - 1) + 1))
   \<and> 2 ^ 64 div (unat (3::uint32) - unat (1::uint32) + 1) \<le> count_hits 1 3 2
   \<and> out (Append (repeat [literal (bytes_of ''o'')] 1 ((3 - 1) + 1))
              ([], st0 (\<lambda>_. 9223372036854775808)))
       = Inr (bytes_of ''oo'')"
proof -
  have h: "(1::uint32) < 3" by simp
  have k: "\<not> ((1::uint32) = 0 \<and> (3::uint32) = 1)" by simp
  have w: "\<not> ((1::uint32) = 0 \<and> (3::uint32) = - 1)" by simp
  have c: "(1::uint32) \<le> 2 \<and> (2::uint32) \<le> 3" by simp
  note t = C4_Repeat_general [OF h k, of "[literal (bytes_of ''o'')]" "[]"
             "st0 (\<lambda>_. 9223372036854775808)" 0]
  from t have r: "Repeat 1 3 [literal (bytes_of ''o'')]
                  = Inr (repeat [literal (bytes_of ''o'')] 1 ((3 - 1) + 1))" by (rule conjunct1)
  from t w c have b: "2 ^ 64 div (unat (3::uint32) - unat (1::uint32) + 1) \<le> count_hits 1 3 2"
    by blast
  from h k w c r b repeat_example show ?thesis by (intro conjI) (elim conjE, assumption)+
qed


text \<open>
  Claim C4 as stated fails: for \<open>Repeat(1, 3, ...)\<close> one more raw value gives the count
  1 than the count 2, so the count is not uniformly distributed.
\<close>

theorem C4_Repeat_counterexample: "count_hits 1 3 1 \<noteq> count_hits 1 3 2"
  by (simp add: count_hits_1_3_1 count_hits_1_3_2 hits_3_0 hits_3_1)

section \<open>The Fisher-Yates pass of shuffle\<close>

lemma length_swapl [simp]: "length (swapl xs i j) = length xs"
  by (simp add: swapl_def)

lemma mset_swapl: "i < length xs \<Longrightarrow> j < length xs \<Longrightarrow> mset (swapl xs i j) = mset xs"
  unfolding swapl_def by (rule mset_swap)

lemma swap_eq: "i < length xs \<Longrightarrow> j < length xs \<Longrightarrow> swap xs i j = Inr (swapl xs i j)"
  by (simp add: swap_def swapl_def)

lemma swap_Inr: "swap xs i j = Inr ys \<Longrightarrow> i < length xs \<and> j < length xs \<and> ys = swapl xs i j"
  by (auto simp: swap_def swapl_def split: if_splits)

lemma length_code_draws [simp]: "length (code_draws m f p) = m"
  by (induction m arbitrary: p) simp_all

lemma RandN_val_le_pred: "unat (RandN_val (i + 1) r) \<le> unat i"
proof (cases "i + 1 = 0")
  case True
  then show ?thesis by (simp add: RandN_val_zero)
next
  case False
  then have "0 < i + 1" by (simp add: word_neq_0_conv)
  then have "RandN_val (i + 1) r < i + 1" by (rule RandN_val_less)
  then have "unat (RandN_val (i + 1) r) < unat (i + 1)" by (simp only: word_less_nat_alt)
  moreover from False have "1 + i \<noteq> 0" by (simp add: add.commute)
  then have "unat (1 + i) = Suc (unat i)" by (rule unatSuc)
  ultimately show ?thesis by (simp add: add.commute)
qed

lemma length_fy_pure [simp]: "length (fy_pure js xs) = length xs"
  by (induction js arbitrary: xs) simp_all

lemma mset_fy_pure:
  "valid_draws js \<Longrightarrow> length js < length xs \<Longrightarrow> mset (fy_pure js xs) = mset xs"
proof (induction js arbitrary: xs)
  case Nil
  show ?case by simp
next
  case (Cons j js)
  then have "mset (swapl xs (Suc (length js)) j) = mset xs"
    by (intro mset_swapl) simp_all
  with Cons show ?case by simp
qed

lemma fisher_yates_zero: "fisher_yates a 0 s = Inr s"
  by (subst fisher_yates.simps) simp

lemma fisher_yates_step:
  assumes "i \<noteq> 0"
  shows "fisher_yates a i s =
     (case swap (arrs s a) (unat i) (unat (RandN_val (i + 1) (rnd s (pos s)))) of
        Inl e \<Rightarrow> Inl e
      | Inr arr \<Rightarrow> fisher_yates a (i - 1) (s\<lparr>pos := pos s + 1, arrs := (arrs s)(a := arr)\<rparr>))"
proof -
  from assms have "0 < i" by (simp add: word_neq_0_conv)
  then show ?thesis
    by (subst fisher_yates.simps) (simp add: RandN_eq split: sum.splits)
qed

lemma fisher_yates_mset:
  "fisher_yates a i s = Inr s' \<Longrightarrow> mset (arrs s' a') = mset (arrs s a')"
proof (induction "unat i" arbitrary: i s)
  case 0
  then have "i = 0" by (simp add: unat_eq_0)
  with 0 show ?case by (simp add: fisher_yates_zero)
next
  case (Suc m)
  then have i0: "i \<noteq> 0" by auto
  let ?j = "unat (RandN_val (i + 1) (rnd s (pos s)))"
  from Suc.prems obtain arr where sw: "swap (arrs s a) (unat i) ?j = Inr arr"
    and rest: "fisher_yates a (i - 1) (s\<lparr>pos := pos s + 1, arrs := (arrs s)(a := arr)\<rparr>) = Inr s'"
    by (auto simp: fisher_yates_step [OF i0] split: sum.splits)
  from Suc.hyps(2) i0 have "m = unat (i - 1)" by (simp add: unat_minus_one)
  from Suc.hyps(1) [OF this rest]
  have "mset (arrs s' a') = mset (((arrs s)(a := arr)) a')" by simp
  moreover from swap_Inr [OF sw] have "mset arr = mset (arrs s a)"
    by (simp add: mset_swapl)
  ultimately show ?case by simp
qed

lemma fisher_yates_eq:
  "unat i < length (arrs s a) \<Longrightarrow>
   fisher_yates a i s =
     Inr (s\<lparr>pos := pos s + unat i,
            arrs := (arrs s)(a := fy_pure (code_draws (unat i) (rnd s) (pos s)) (arrs s a))\<rparr>)"
proof (induction "unat i" arbitrary: i s)
  case 0
  then have "i = 0" by (simp add: unat_eq_0)
  with 0 show ?case by (simp add: fisher_yates_zero)
next
  case (Suc m)
  then have i0: "i \<noteq> 0" by auto
  let ?j = "unat (RandN_val (i + 1) (rnd s (pos s)))"
  let ?arr = "swapl (arrs s a) (unat i) ?j"
  let ?s1 = "s\<lparr>pos := pos s + 1, arrs := (arrs s)(a := ?arr)\<rparr>"
  have "?j \<le> unat i" by (rule RandN_val_le_pred)
  with Suc.prems have sw: "swap (arrs s a) (unat i) ?j = Inr ?arr"
    by (intro swap_eq) simp_all
  from Suc.hyps(2) i0 have m: "m = unat (i - 1)" by (simp add: unat_minus_one)
  with Suc.hyps(2) Suc.prems have "unat (i - 1) < length (arrs ?s1 a)" by simp
  from Suc.hyps(1) [OF m this]
  have "fisher_yates a (i - 1) ?s1 =
     Inr (?s1\<lparr>pos := pos ?s1 + unat (i - 1),
            arrs := (arrs ?s1)(a := fy_pure (code_draws (unat (i - 1)) (rnd ?s1) (pos ?s1)) (arrs ?s1 a))\<rparr>)" .
  moreover have "of_nat (Suc m) = i" using Suc.hyps(2) by (metis of_nat_unat ucast_id)
  ultimately show ?case
    using sw Suc.hyps(2) [symmetric] m [symmetric]
    by (simp add: fisher_yates_step [OF i0])
qed

lemma valid_code_draws: "m < 2 ^ 32 \<Longrightarrow> valid_draws (code_draws m f p)"
proof (induction m arbitrary: p)
  case 0
  show ?case by simp
next
  case (Suc m)
  then have "unat (of_nat (Suc m) :: uint32) = Suc m"
    by (simp add: unat_of_nat take_bit_nat_eq_self unsigned_of_nat del: of_nat_Suc)
  with RandN_val_le_pred [of "of_nat (Suc m)" "f p"]
  have "unat (RandN_val (of_nat (Suc m) + 1) (f p)) \<le> Suc m" by simp
  with Suc show ?case by simp
qed

section \<open>Generation without errors\<close>

lemma arrays_ok_cong:
  "(\<And>a. mset (arrs s' a) = mset (arrs s a)) \<Longrightarrow> arrays_ok s' p = arrays_ok s p"
  by (induction p) simp_all

lemma arrays_ok_upd:
  "a \<notin> addrs p \<Longrightarrow> arrays_ok (s\<lparr>arrs := (arrs s)(a := x)\<rparr>) p = arrays_ok s p"
  by (induction p) auto

lemma arrays_ok_nxt [simp]: "arrays_ok (s\<lparr>nxt := n\<rparr>) p = arrays_ok s p"
  by (induction p) simp_all

lemma each_pres_aux:
  "\<forall>p\<in>set ps. \<forall>c c'. f p c = Inr c' \<longrightarrow> \<phi> c' = \<phi> c
   \<Longrightarrow> each f ps c = Inr c' \<Longrightarrow> \<phi> c' = \<phi> c"
proof (induction ps arbitrary: c)
  case Nil
  then show ?case by simp
next
  case (Cons p ps)
  from Cons.prems(2) obtain c1 where c1: "f p c = Inr c1" and rest: "each f ps c1 = Inr c'"
    by (auto split: sum.splits)
  from Cons.prems(1) have "\<forall>c c'. f p c = Inr c' \<longrightarrow> \<phi> c' = \<phi> c" by simp
  with c1 have o1: "\<phi> c1 = \<phi> c" by blast
  from Cons.prems(1) have "\<forall>p\<in>set ps. \<forall>c c'. f p c = Inr c' \<longrightarrow> \<phi> c' = \<phi> c"
    by simp
  from Cons.IH [OF this rest] o1 show ?case by simp
qed

lemma each_pres:
  assumes "\<And>p c c'. p \<in> set ps \<Longrightarrow> f p c = Inr c' \<Longrightarrow> \<phi> c' = \<phi> c"
    and "each f ps c = Inr c'"
  shows "\<phi> c' = \<phi> c"
  by (rule each_pres_aux [OF _ assms(2)]) (blast intro: assms(1))

lemma ntimes_pres:
  assumes "\<And>c c'. g c = Inr c' \<Longrightarrow> \<phi> c' = \<phi> c"
    and "ntimes n g c = Inr c'"
  shows "\<phi> c' = \<phi> c"
  using assms(2)
proof (induction n arbitrary: c)
  case 0
  then show ?case by simp
next
  case (Suc n)
  from Suc.prems obtain c1 where c1: "g c = Inr c1" and rest: "ntimes n g c1 = Inr c'"
    by (auto split: sum.splits)
  from assms(1) [OF c1] Suc.IH [OF rest] show ?case by simp
qed

lemma Append_mset: "Append p c = Inr c' \<Longrightarrow> perm_of c' = perm_of c"
proof (induction p c arbitrary: c' rule: Append.induct)
  case (1 ps c)
  from "1.prems" have "each Append ps c = Inr c'" by simp
  then show ?case by (rule each_pres [where \<phi> = perm_of, rotated]) (rule "1.IH")
next
  case (2 c)
  then show ?case by simp
next
  case (3 ps c)
  from "3.prems" have "each Append ps c = Inr c'" by simp
  then show ?case by (rule each_pres [where \<phi> = perm_of, rotated]) (rule "3.IH")
next
  case (4 ps mn maxr b s)
  from "4.prems" have n: "ntimes (unat (RandN_val maxr (rnd s (pos s)) + mn)) (each Append ps)
         (b, s\<lparr>pos := pos s + 1\<rparr>) = Inr c'"
    by (simp only: Append_repeat)
  have "\<And>d d'. each Append ps d = Inr d' \<Longrightarrow> perm_of d' = perm_of d"
  proof -
    fix d d'
    assume e: "each Append ps d = Inr d'"
    show "perm_of d' = perm_of d"
    proof (rule each_pres [where \<phi> = perm_of, OF _ e])
      fix p x x'
      assume "p \<in> set ps" and "Append p x = Inr x'"
      then show "perm_of x' = perm_of x"
        by (rule "4.IH" [OF RandN_eq [symmetric] refl refl])
    qed
  qed
  from ntimes_pres [where \<phi> = perm_of, OF this n] show ?case by (simp add: perm_of_def)
next
  case (5 p b s)
  show ?case
  proof (cases "rnd s (pos s) AND 1 = 1")
    case True
    with "5.prems" have a: "Append p (b, s\<lparr>pos := pos s + 1\<rparr>) = Inr c'"
      by (simp add: Fastrand_def)
    have f: "(rnd s (pos s), s\<lparr>pos := pos s + 1\<rparr>) = Fastrand s"
      by (simp add: Fastrand_def)
    have "perm_of c' = perm_of (b, s\<lparr>pos := pos s + 1\<rparr>)"
      by (rule "5.IH" [OF f refl True a])
    then show ?thesis by (simp add: perm_of_def)
  next
    case False
    with "5.prems" show ?thesis by (auto simp: Fastrand_def perm_of_def)
  qed
next
  case (6 p percent b s)
  obtain x s1 where r: "RandFloat64 s = (x, s1)" by (cases "RandFloat64 s")
  then have s1: "arrs s1 = arrs s" by (auto simp: RandFloat64_def Fastrand_def)
  show ?case
  proof (cases "f_le x percent")
    case True
    with "6.prems" r have "Append p (b, s1) = Inr c'" by simp
    from "6.IH" [OF r [symmetric] refl True this] s1 show ?thesis by (simp add: perm_of_def)
  next
    case False
    with "6.prems" r s1 show ?thesis by (auto simp: perm_of_def)
  qed
next
  case (7 l b s)
  then show ?case by (auto simp: perm_of_def)
next
  case (8 ps len b s)
  obtain n s1 where r: "RandN len s = (n, s1)" by (cases "RandN len s")
  then have s1: "arrs s1 = arrs s" by (auto simp: RandN_eq)
  from r "8.prems" obtain p where p: "index ps (unat n) = Inr p" and a: "Append p (b, s1) = Inr c'"
    by (auto split: sum.splits)
  from "8.IH" [OF r [symmetric] refl p a] s1 show ?case by (simp add: perm_of_def)
next
  case (9 alphabet len b s)
  then show ?case by (auto simp: RandN_eq perm_of_def split: sum.splits)
next
  case (10 alphabet len b s)
  then show ?case by (auto simp: RandN_eq perm_of_def split: sum.splits)
next
  case (11 alphabet len b s)
  then show ?case by (auto simp: RandN_eq perm_of_def split: sum.splits)
next
  case (12 a ps len b s)
  from "12.prems" obtain s1 where fy: "fisher_yates a (len - 1) s = Inr s1"
    and e: "each (\<lambda>i (b, s). case index (arrs s a) i of
                             Inl e \<Rightarrow> Inl e
                           | Inr k \<Rightarrow> (case index ps k of
                                         Inl e \<Rightarrow> Inl e
                                       | Inr p \<Rightarrow> Append p (b, s)))
               [0..<unat len] (b, s1) = Inr c'"
    by (auto split: sum.splits)
  have "perm_of c' = perm_of (b, s1)"
  proof (rule each_pres [where \<phi> = perm_of, OF _ e])
    fix i c c2
    assume i: "i \<in> set [0..<unat len]"
      and f: "(case c of (b, s) \<Rightarrow> case index (arrs s a) i of
                             Inl e \<Rightarrow> Inl e
                           | Inr k \<Rightarrow> (case index ps k of
                                         Inl e \<Rightarrow> Inl e
                                       | Inr p \<Rightarrow> Append p (b, s))) = Inr c2"
    obtain b2 s2 where c: "c = (b2, s2)" by (cases c)
    with f obtain k p where k: "index (arrs s2 a) i = Inr k" and p: "index ps k = Inr p"
      and ap: "Append p (b2, s2) = Inr c2"
      by (auto split: sum.splits)
    from "12.IH" [OF fy i refl k p ap] show "perm_of c2 = perm_of c" by (simp add: c)
  qed
  with fisher_yates_mset [OF fy] show ?case by (simp add: perm_of_def)
next
  case (13 start mx width a b s)
  then have "c' = (b @ wrap_padded width (unat (seq_next start mx (cells s a))),
                   s\<lparr>cells := (cells s)(a := seq_next start mx (cells s a))\<rparr>)"
    by (simp only: Append_sequence sum.inject)
  then show ?case by (simp add: perm_of_def)
qed

lemma unat_of_nat_le: "unat (of_nat L :: uint32) \<le> L"
  by (simp add: unat_of_nat)

lemma RandN_val_index:
  assumes "0 < L"
  shows "unat (RandN_val (of_nat L) r) < L"
proof (cases "(of_nat L :: uint32) = 0")
  case True
  with assms show ?thesis by (simp add: RandN_val_zero)
next
  case False
  then have "0 < (of_nat L :: uint32)" by (simp add: word_neq_0_conv)
  then have "RandN_val (of_nat L) r < of_nat L" by (rule RandN_val_less)
  then have "unat (RandN_val (of_nat L) r) < unat (of_nat L :: uint32)"
    by (simp only: word_less_nat_alt)
  with unat_of_nat_le [of L] show ?thesis by simp
qed

lemma unat_pred_of_nat:
  assumes "0 < L"
  shows "unat (of_nat L - 1 :: uint32) < L"
proof (cases "(of_nat L :: uint32) = 0")
  case True
  then have "unat (of_nat L :: uint32) = 0" by simp
  then have "L mod 2 ^ 32 = 0" by (simp add: unat_of_nat)
  with assms have "2 ^ 32 \<le> L" by (auto dest: dvd_imp_le simp: mod_eq_0_iff_dvd)
  with True show ?thesis by (simp add: unat_m1_32)
next
  case False
  then have "unat (of_nat L - 1 :: uint32) = unat (of_nat L :: uint32) - 1"
    by (rule unat_minus_one)
  moreover from False have "0 < unat (of_nat L :: uint32)" by (simp add: unat_gt_0)
  ultimately show ?thesis using unat_of_nat_le [of L] by simp
qed

lemma each_safe:
  "\<forall>p\<in>set ps. \<forall>c. J c \<longrightarrow> (\<exists>c'. f p c = Inr c' \<and> J c')
   \<Longrightarrow> J c \<Longrightarrow> \<exists>c'. each f ps c = Inr c' \<and> J c'"
proof (induction ps arbitrary: c)
  case Nil
  then show ?case by simp
next
  case (Cons p ps)
  from Cons.prems(1) have "\<forall>c. J c \<longrightarrow> (\<exists>c'. f p c = Inr c' \<and> J c')" by simp
  with Cons.prems(2) obtain c1 where c1: "f p c = Inr c1" "J c1" by blast
  from Cons.prems(1) have "\<forall>p\<in>set ps. \<forall>c. J c \<longrightarrow> (\<exists>c'. f p c = Inr c' \<and> J c')" by simp
  from Cons.IH [OF this c1(2)] c1(1) show ?case by simp
qed

lemma ntimes_safe:
  "\<forall>c. J c \<longrightarrow> (\<exists>c'. g c = Inr c' \<and> J c')
   \<Longrightarrow> J c \<Longrightarrow> \<exists>c'. ntimes n g c = Inr c' \<and> J c'"
proof (induction n arbitrary: c)
  case 0
  then show ?case by simp
next
  case (Suc n)
  from Suc.prems obtain c1 where c1: "g c = Inr c1" "J c1" by blast
  from Suc.IH [OF Suc.prems(1) c1(2)] c1(1) show ?case by simp
qed

lemma perm_of_pos [simp]: "perm_of (b, s\<lparr>pos := n\<rparr>) = perm_of (b', s)"
  by (simp add: perm_of_def)

lemma perm_of_buf: "perm_of (b, s) = perm_of (b', s)"
  by (simp add: perm_of_def)

lemma perm_of_arr:
  assumes "perm_of (b, s) = perm_of (b0, s0)"
  shows "mset (arrs s a) = mset (arrs s0 a)"
proof -
  from assms have "perm_of (b, s) a = perm_of (b0, s0) a" by simp
  then show ?thesis by (simp add: perm_of_def)
qed

lemma Append_safe:
  "nonempty p \<Longrightarrow> arrays_ok s0 p \<Longrightarrow> perm_of c = perm_of ([], s0)
   \<Longrightarrow> \<exists>c'. Append p c = Inr c' \<and> perm_of c' = perm_of ([], s0)"
proof (induction p arbitrary: c)
  case (gen ps)
  from gen have "\<forall>p\<in>set ps. \<forall>c. perm_of c = perm_of ([], s0)
                   \<longrightarrow> (\<exists>c'. Append p c = Inr c' \<and> perm_of c' = perm_of ([], s0))"
    by simp
  from each_safe [OF this gen.prems(3)] show ?case by simp
next
  case nullpart
  then show ?case by simp
next
  case (group' ps)
  from group' have "\<forall>p\<in>set ps. \<forall>c. perm_of c = perm_of ([], s0)
                   \<longrightarrow> (\<exists>c'. Append p c = Inr c' \<and> perm_of c' = perm_of ([], s0))"
    by simp
  from each_safe [OF this group'.prems(3)] show ?case by simp
next
  case (repeat ps mn maxr)
  obtain b s where c: "c = (b, s)" by (cases c)
  from repeat have "\<forall>p\<in>set ps. \<forall>c. perm_of c = perm_of ([], s0)
                   \<longrightarrow> (\<exists>c'. Append p c = Inr c' \<and> perm_of c' = perm_of ([], s0))"
    by simp
  then have "\<forall>c. perm_of c = perm_of ([], s0)
                   \<longrightarrow> (\<exists>c'. each Append ps c = Inr c' \<and> perm_of c' = perm_of ([], s0))"
    using each_safe [where J = "\<lambda>c. perm_of c = perm_of ([], s0)" and f = Append and ps = ps]
    by blast
  moreover from repeat.prems(3) have "perm_of (b, s\<lparr>pos := pos s + 1\<rparr>) = perm_of ([], s0)"
    by (simp add: c perm_of_def)
  ultimately show ?case
    unfolding c Append_repeat by (rule ntimes_safe)
next
  case (potentially50 p)
  obtain b s where c: "c = (b, s)" by (cases c)
  from potentially50.prems(3) have j: "perm_of (b, s\<lparr>pos := pos s + 1\<rparr>) = perm_of ([], s0)"
    by (simp add: c perm_of_def)
  with potentially50 show ?case by (simp add: c Fastrand_def)
next
  case (potentiallyP p x)
  obtain b s where c: "c = (b, s)" by (cases c)
  from potentiallyP.prems(3) have j: "perm_of (b, s\<lparr>pos := pos s + 1\<rparr>) = perm_of ([], s0)"
    by (simp add: c perm_of_def)
  with potentiallyP show ?case by (simp add: c RandFloat64_def Fastrand_def)
next
  case (literal l)
  obtain b s where c: "c = (b, s)" by (cases c)
  with literal show ?case by (simp add: perm_of_def)
next
  case (anyOf ps len)
  obtain b s where c: "c = (b, s)" by (cases c)
  from anyOf.prems(1) have L: "0 < length ps" and len: "len = of_nat (length ps)" by simp_all
  let ?n = "unat (RandN_val len (rnd s (pos s)))"
  from RandN_val_index [OF L] have n: "?n < length ps" by (simp add: len)
  then have mem: "ps ! ?n \<in> set ps" by simp
  from anyOf.prems(3) have j: "perm_of (b, s\<lparr>pos := pos s + 1\<rparr>) = perm_of ([], s0)"
    by (simp add: c perm_of_def)
  from anyOf.IH [OF mem _ _ j] anyOf.prems(1,2) mem
  have "\<exists>c'. Append (ps ! ?n) (b, s\<lparr>pos := pos s + 1\<rparr>) = Inr c' \<and> perm_of c' = perm_of ([], s0)"
    by simp
  with n show ?case by (simp add: c RandN_eq index_def)
next
  case (anyOfString alphabet len)
  obtain b s where c: "c = (b, s)" by (cases c)
  from anyOfString.prems(1) have L: "0 < length alphabet" and len: "len = of_nat (length alphabet)"
    by simp_all
  from RandN_val_index [OF L] have "unat (RandN_val len (rnd s (pos s))) < length alphabet"
    by (simp add: len)
  with anyOfString.prems(3) show ?case by (simp add: c RandN_eq index_def perm_of_def)
next
  case (anyOfByte alphabet len)
  obtain b s where c: "c = (b, s)" by (cases c)
  from anyOfByte.prems(1) have L: "0 < length alphabet" and len: "len = of_nat (length alphabet)"
    by simp_all
  from RandN_val_index [OF L] have "unat (RandN_val len (rnd s (pos s))) < length alphabet"
    by (simp add: len)
  with anyOfByte.prems(3) show ?case by (simp add: c RandN_eq index_def perm_of_def)
next
  case (anyOfRune alphabet len)
  obtain b s where c: "c = (b, s)" by (cases c)
  from anyOfRune.prems(1) have L: "0 < length alphabet" and len: "len = of_nat (length alphabet)"
    by simp_all
  from RandN_val_index [OF L] have "unat (RandN_val len (rnd s (pos s))) < length alphabet"
    by (simp add: len)
  with anyOfRune.prems(3) show ?case by (simp add: c RandN_eq index_def perm_of_def)
next
  case (shuffle a ps len)
  obtain b s where c: "c = (b, s)" by (cases c)
  from shuffle.prems(1) have L: "0 < length ps" and len: "len = of_nat (length ps)" by simp_all
  from shuffle.prems(2) have arr0: "mset (arrs s0 a) = mset [0..<length ps]" by simp
  let ?J = "\<lambda>c. perm_of c = perm_of ([], s0)"
  have arr: "mset (arrs t a) = mset [0..<length ps]" if "?J (x, t)" for x t
    using perm_of_arr [OF that, of a] arr0 by simp
  from arr [of b s] shuffle.prems(3) have "length (arrs s a) = length ps"
    using mset_eq_length [of "arrs s a" "[0..<length ps]"] by (simp add: c)
  with unat_pred_of_nat [OF L] have "unat (len - 1) < length (arrs s a)" by (simp add: len)
  from fisher_yates_eq [OF this] obtain s1 where fy: "fisher_yates a (len - 1) s = Inr s1" by blast
  from fisher_yates_mset [OF fy] shuffle.prems(3) have j1: "?J (b, s1)"
    by (simp add: c perm_of_def)
  have body: "\<forall>i\<in>set [0..<unat len]. \<forall>c. ?J c \<longrightarrow>
      (\<exists>c'. (case c of (b, s) \<Rightarrow> case index (arrs s a) i of
                             Inl e \<Rightarrow> Inl e
                           | Inr k \<Rightarrow> (case index ps k of
                                         Inl e \<Rightarrow> Inl e
                                       | Inr p \<Rightarrow> Append p (b, s))) = Inr c' \<and> ?J c')"
  proof (intro ballI allI impI)
    fix i d
    assume i: "i \<in> set [0..<unat len]" and j: "?J d"
    obtain x t where d: "d = (x, t)" by (cases d)
    from arr [of x t] j have m: "mset (arrs t a) = mset [0..<length ps]" by (simp add: d)
    then have lt: "length (arrs t a) = length ps"
      using mset_eq_length [of "arrs t a" "[0..<length ps]"] by simp
    from i unat_of_nat_le [of "length ps"] have il: "i < length (arrs t a)" by (simp add: len lt)
    then have "arrs t a ! i \<in> set (arrs t a)" by simp
    moreover from m have "set (arrs t a) = set [0..<length ps]" by (rule mset_eq_setD)
    ultimately have k: "arrs t a ! i < length ps" by simp
    then have mem: "ps ! (arrs t a ! i) \<in> set ps" by simp
    from shuffle.IH [OF mem _ _ j] shuffle.prems(1,2) mem
    have "\<exists>c'. Append (ps ! (arrs t a ! i)) d = Inr c' \<and> ?J c'" by simp
    with il k show "\<exists>c'. (case d of (b, s) \<Rightarrow> case index (arrs s a) i of
                             Inl e \<Rightarrow> Inl e
                           | Inr k \<Rightarrow> (case index ps k of
                                         Inl e \<Rightarrow> Inl e
                                       | Inr p \<Rightarrow> Append p (b, s))) = Inr c' \<and> ?J c'"
      by (simp add: d index_def)
  qed
  from each_safe [where J = ?J, OF body j1] fy show ?case by (simp add: c)
next
  case (sequence start mx width a)
  obtain b s where c: "c = (b, s)" by (cases c)
  with sequence show ?case by (simp add: Append_sequence perm_of_def del: Append.simps)
qed

lemma nonempty_OneOf:
  "ps \<noteq> [] \<Longrightarrow> \<forall>q\<in>set ps. nonempty q \<Longrightarrow> nonempty (OneOf ps)"
  by (cases ps) (auto simp: OneOf_def)

lemma nonempty_Shuffle:
  "ps \<noteq> [] \<Longrightarrow> \<forall>q\<in>set ps. nonempty q \<Longrightarrow> nonempty (fst (Shuffle ps t))"
  by (simp add: Shuffle_def)

lemma arrays_ok_Shuffle:
  assumes "\<forall>q\<in>set ps. arrays_ok t q \<and> nxt t \<notin> addrs q"
  shows "arrays_ok (snd (Shuffle ps t)) (fst (Shuffle ps t))"
proof -
  have "arrays_ok (t\<lparr>arrs := (arrs t)(nxt t := [0..<length ps])\<rparr>) q" if "q \<in> set ps" for q
    using that assms by (simp add: arrays_ok_upd)
  then have "\<forall>q\<in>set ps. arrays_ok (t\<lparr>arrs := (arrs t)(nxt t := [0..<length ps]), nxt := nxt t + 1\<rparr>) q"
    by simp
  then show ?thesis by (simp add: Shuffle_def)
qed

lemma generation_safe:
  assumes "nonempty p" and "arrays_ok s p"
  shows "\<exists>b' s'. Append p (b, s) = Inr (b', s') \<and> arrays_ok s' p"
proof -
  have "perm_of (b, s) = perm_of ([], s)" by (rule perm_of_buf)
  from Append_safe [OF assms this] obtain b' s' where
    a: "Append p (b, s) = Inr (b', s')" and j: "perm_of (b', s') = perm_of ([], s)"
    by auto
  have "arrays_ok s' p = arrays_ok s p"
    by (rule arrays_ok_cong) (rule perm_of_arr [OF j])
  with a assms(2) show ?thesis by simp
qed

text \<open>
  Claim C2, as the code has it. The Choice constructors and \<open>Shuffle\<close> accept any list
  and never fail. For a part whose Choice and Shuffle nodes hold non-empty lists, as
  their constructors build them, and whose shuffle arrays hold their children (as
  \<open>Shuffle\<close> allocates them and every earlier \<open>Append\<close> leaves them), \<open>Append\<close> returns
  without error from every buffer and every sequence of raw draws, and leaves the
  arrays fit for the next call.
\<close>

theorem C2_generation_safe:
  "(nonempty p \<and> arrays_ok s p \<longrightarrow>
      (\<exists>b' s'. Append p (b, s) = Inr (b', s') \<and> arrays_ok s' p))
   \<and> nonempty (OneOfString als) = (als \<noteq> [])
   \<and> nonempty (OneOfByte alb) = (alb \<noteq> [])
   \<and> nonempty (OneOfRune alr) = (alr \<noteq> [])
   \<and> (ps \<noteq> [] \<and> (\<forall>q\<in>set ps. nonempty q) \<longrightarrow>
        nonempty (OneOf ps) \<and> nonempty (fst (Shuffle ps t)))
   \<and> ((\<forall>q\<in>set ps. arrays_ok t q \<and> nxt t \<notin> addrs q) \<longrightarrow>
        arrays_ok (snd (Shuffle ps t)) (fst (Shuffle ps t)))"
proof (intro conjI impI)
  show "\<exists>b' s'. Append p (b, s) = Inr (b', s') \<and> arrays_ok s' p"
    if "nonempty p \<and> arrays_ok s p"
    using that generation_safe by blast
  show "nonempty (OneOfString als) = (als \<noteq> [])" by (simp add: OneOfString_def)
  show "nonempty (OneOfByte alb) = (alb \<noteq> [])" by (simp add: OneOfByte_def)
  show "nonempty (OneOfRune alr) = (alr \<noteq> [])" by (simp add: OneOfRune_def)
  show "nonempty (OneOf ps)" if "ps \<noteq> [] \<and> (\<forall>q\<in>set ps. nonempty q)"
    using that nonempty_OneOf by blast
  show "nonempty (fst (Shuffle ps t))" if "ps \<noteq> [] \<and> (\<forall>q\<in>set ps. nonempty q)"
    using that nonempty_Shuffle by blast
  show "arrays_ok (snd (Shuffle ps t)) (fst (Shuffle ps t))"
    if "\<forall>q\<in>set ps. arrays_ok t q \<and> nxt t \<notin> addrs q"
    using that by (rule arrays_ok_Shuffle)
qed

theorem C2_generation_safe_witness:
  "nonempty (fst example_gen) \<and> arrays_ok (snd example_gen) (fst example_gen)
   \<and> (\<exists>b' s'. Append (fst example_gen) ([], snd example_gen) = Inr (b', s')
                \<and> arrays_ok s' (fst example_gen))
   \<and> abc \<noteq> [] \<and> list_all nonempty abc
   \<and> list_all (\<lambda>q. arrays_ok (st0 (\<lambda>_. 0)) q \<and> nxt (st0 (\<lambda>_. 0)) \<notin> addrs q) abc
   \<and> nonempty (OneOf abc) \<and> nonempty (fst (Shuffle abc (st0 (\<lambda>_. 0))))
   \<and> arrays_ok (snd (Shuffle abc (st0 (\<lambda>_. 0)))) (fst (Shuffle abc (st0 (\<lambda>_. 0))))"
proof -
  have n: "nonempty (fst example_gen)"
    by (simp add: example_gen_def abc_def Shuffle_def New_def OneOfByte_def OneOf_def bytes_of_def)
  have a: "arrays_ok (snd example_gen) (fst example_gen)"
    by (simp add: example_gen_def abc_def Shuffle_def New_def OneOfByte_def OneOf_def bytes_of_def
          st0_def upt_rec)
  have c: "abc \<noteq> [] \<and> (\<forall>q\<in>set abc. nonempty q)" by (simp add: abc_def)
  have d: "\<forall>q\<in>set abc. arrays_ok (st0 (\<lambda>_. 0)) q \<and> nxt (st0 (\<lambda>_. 0)) \<notin> addrs q"
    by (simp add: abc_def)
  note t = C2_generation_safe [of "fst example_gen" "snd example_gen" "[]" "[]" "[]" "[]"
              abc "st0 (\<lambda>_. 0)"]
  from t n a have 1: "\<exists>b' s'. Append (fst example_gen) ([], snd example_gen) = Inr (b', s')
                \<and> arrays_ok s' (fst example_gen)" by blast
  from t c have 2: "nonempty (OneOf abc) \<and> nonempty (fst (Shuffle abc (st0 (\<lambda>_. 0))))" by blast
  from t d have 3: "arrays_ok (snd (Shuffle abc (st0 (\<lambda>_. 0)))) (fst (Shuffle abc (st0 (\<lambda>_. 0))))"
    by blast
  from c have c': "abc \<noteq> []" "list_all nonempty abc" by (simp_all add: list_all_iff)
  from d have d': "list_all (\<lambda>q. arrays_ok (st0 (\<lambda>_. 0)) q \<and> nxt (st0 (\<lambda>_. 0)) \<notin> addrs q) abc"
    by (simp add: list_all_iff)
  from 2 have 2: "nonempty (OneOf abc)" "nonempty (fst (Shuffle abc (st0 (\<lambda>_. 0))))" by simp_all
  show ?thesis by (intro conjI) (rule n a 1 2 3 c' d')+
qed

lemma index_Nil: "index [] i = Inl IndexOutOfRange"
  by (simp add: index_def)

lemma Append_anyOfByte_empty: "Append (anyOfByte [] len) (b, s) = Inl IndexOutOfRange"
  by (simp add: RandN_eq index_Nil)

lemma Append_anyOfString_empty: "Append (anyOfString [] len) (b, s) = Inl IndexOutOfRange"
  by (simp add: RandN_eq index_Nil)

lemma Append_anyOfRune_empty: "Append (anyOfRune [] len) (b, s) = Inl IndexOutOfRange"
  by (simp add: RandN_eq index_Nil)

lemma Append_anyOf_empty: "Append (anyOf [] len) (b, s) = Inl IndexOutOfRange"
  by (simp add: RandN_eq index_Nil)

lemma Append_shuffle_empty:
  "arrs s a = [] \<Longrightarrow> Append (shuffle a [] 0) (b, s) = Inl IndexOutOfRange"
proof -
  assume e: "arrs s a = []"
  have "(0 - 1 :: uint32) \<noteq> 0" by simp
  from fisher_yates_step [OF this, of a s] e
  have "fisher_yates a (0 - 1) s = Inl IndexOutOfRange" by (simp add: swap_def)
  then show ?thesis by simp
qed

lemma Append_Shuffle_empty:
  "Append (fst (Shuffle [] s)) (b, snd (Shuffle [] s)) = Inl IndexOutOfRange"
  by (simp add: Shuffle_def Append_shuffle_empty del: Append.simps)

text \<open>
  Claim C2 as stated fails: \<open>OneOfByte\<close> and \<open>Shuffle\<close> accept an empty list, and the
  index expression then panics during generation.
\<close>

theorem C2_generation_safe_counterexample:
  "out (Append (New [OneOfByte []]) ([], st0 (\<lambda>_. 0))) = Inl IndexOutOfRange
   \<and> out (Append (fst (Shuffle [] (st0 (\<lambda>_. 0)))) ([], snd (Shuffle [] (st0 (\<lambda>_. 0)))))
       = Inl IndexOutOfRange"
  by (simp add: out_def New_def OneOfByte_def Append_anyOfByte_empty Append_Shuffle_empty
           del: Append.simps(10))

section \<open>Construction errors\<close>

lemma Repeat_error_iff: "(\<exists>e. Repeat mn mx p = Inl e) \<longleftrightarrow> mx = 0 \<or> mx < mn"
  by (simp add: Repeat_def)

lemma Potentially_error_iff: "(\<exists>e. Potentially c q = Inl e) \<longleftrightarrow> f_lt c (Finite 0)"
  by (simp add: Potentially_def)

lemma Sequence_error_iff: "(\<exists>e. Sequence start mx width s = Inl e) \<longleftrightarrow> mx < start"
  by (simp add: Sequence_def)

lemma each_Inl: "each f ps c = Inl e \<Longrightarrow> \<exists>p\<in>set ps. \<exists>c'. f p c' = Inl e"
proof (induction ps arbitrary: c)
  case Nil
  then show ?case by simp
next
  case (Cons p ps)
  show ?case
  proof (cases "f p c")
    case (Inl e')
    with Cons.prems have "f p c = Inl e" by simp
    then show ?thesis by auto
  next
    case (Inr c1)
    with Cons.prems have "each f ps c1 = Inl e" by simp
    from Cons.IH [OF this] show ?thesis by auto
  qed
qed

lemma ntimes_Inl: "ntimes n g c = Inl e \<Longrightarrow> \<exists>c'. g c' = Inl e"
proof (induction n arbitrary: c)
  case 0
  then show ?case by simp
next
  case (Suc n)
  show ?case
  proof (cases "g c")
    case (Inl e')
    with Suc.prems have "g c = Inl e" by simp
    then show ?thesis by auto
  next
    case (Inr c1)
    with Suc.prems have "ntimes n g c1 = Inl e" by simp
    from Suc.IH [OF this] show ?thesis .
  qed
qed

lemma set_Repeat_loop: "set (Repeat_loop k p []) \<subseteq> set p"
  by (auto simp: Repeat_loop_eq)

lemma Append_group_Inl:
  "Append (group' ps) d = Inl e \<Longrightarrow> \<exists>x\<in>set ps. \<exists>d'. Append x d' = Inl e"
  using each_Inl [of Append ps d e] by simp

lemma Append_Group_Inl:
  assumes "Append (Group p) d = Inl e"
  shows "\<exists>x\<in>set p. \<exists>d'. Append x d' = Inl e"
proof (cases "length p = 1")
  case True
  then obtain x where p: "p = [x]" by (cases p) auto
  with assms have "Append x d = Inl e" by (simp add: Group_def)
  then have "\<exists>d'. Append x d' = Inl e" by (rule exI)
  with p show ?thesis by simp
next
  case False
  with assms have "Append (group' p) d = Inl e" by (simp add: Group_def)
  then show ?thesis by (rule Append_group_Inl)
qed

lemma Append_potentially50_Inl:
  assumes "Append (potentially50 q) d = Inl e"
  shows "\<exists>d'. Append q d' = Inl e"
proof -
  obtain b s where d: "d = (b, s)" by (cases d)
  with assms have "Append q (b, s\<lparr>pos := pos s + 1\<rparr>) = Inl e"
    by (simp add: Fastrand_def split: if_splits)
  then show ?thesis by (rule exI)
qed

lemma Append_potentiallyP_Inl:
  assumes "Append (potentiallyP q c) d = Inl e"
  shows "\<exists>d'. Append q d' = Inl e"
proof -
  obtain b s where d: "d = (b, s)" by (cases d)
  with assms have "Append q (b, snd (RandFloat64 s)) = Inl e"
    by (simp add: split_def Let_def split: if_splits)
  then show ?thesis by (rule exI)
qed

lemma Append_repeat_Inl:
  assumes "Append (repeat ps mn maxr) d = Inl e"
  shows "\<exists>x\<in>set ps. \<exists>d'. Append x d' = Inl e"
proof -
  obtain b s where d: "d = (b, s)" by (cases d)
  from assms have "ntimes (unat (RandN_val maxr (rnd s (pos s)) + mn)) (each Append ps)
         (b, s\<lparr>pos := pos s + 1\<rparr>) = Inl e"
    by (simp only: d Append_repeat)
  from ntimes_Inl [OF this] obtain d1 where "each Append ps d1 = Inl e" by blast
  then show ?thesis by (rule each_Inl)
qed

lemma Repeat_no_own_error:
  assumes "Repeat mn mx p = Inr r" and "Append r d = Inl e"
  shows "\<exists>x\<in>set p. \<exists>d'. Append x d' = Inl e"
proof -
  from assms(1) consider
      (const) "r = group' (Repeat_loop (unat mx) p [])"
    | (opt) "r = potentially50 (Group p)"
    | (gen) "r = repeat p mn ((mx - mn) + 1)"
    by (auto simp: Repeat_def split: if_splits)
  then show ?thesis
  proof cases
    case const
    with assms(2) have "Append (group' (Repeat_loop (unat mx) p [])) d = Inl e" by simp
    then have "\<exists>x\<in>set (Repeat_loop (unat mx) p []). \<exists>d'. Append x d' = Inl e"
      by (rule Append_group_Inl)
    with set_Repeat_loop [of "unat mx" p] show ?thesis by blast
  next
    case opt
    with assms(2) have "Append (potentially50 (Group p)) d = Inl e" by simp
    from Append_potentially50_Inl [OF this] obtain d1 where "Append (Group p) d1 = Inl e" by blast
    then show ?thesis by (rule Append_Group_Inl)
  next
    case gen
    with assms(2) have "Append (repeat p mn ((mx - mn) + 1)) d = Inl e" by simp
    then show ?thesis by (rule Append_repeat_Inl)
  qed
qed

lemma Potentially_no_own_error:
  assumes "Potentially c q = Inr r" and "Append r d = Inl e"
  shows "\<exists>d'. Append q d' = Inl e"
proof -
  from assms(1) consider "r = nullpart" | "r = q" | "r = potentially50 q" | "r = potentiallyP q c"
    by (auto simp: Potentially_def split: if_splits)
  then show ?thesis
  proof cases
    case 1
    with assms(2) show ?thesis by simp
  next
    case 2
    with assms(2) have "Append q d = Inl e" by simp
    then show ?thesis by (rule exI)
  next
    case 3
    with assms(2) have "Append (potentially50 q) d = Inl e" by simp
    then show ?thesis by (rule Append_potentially50_Inl)
  next
    case 4
    with assms(2) have "Append (potentiallyP q c) d = Inl e" by simp
    then show ?thesis by (rule Append_potentiallyP_Inl)
  qed
qed

lemma Sequence_no_error:
  assumes "Sequence start mx width s = Inr (r, t)"
  shows "Append r d \<noteq> Inl e"
proof -
  obtain b u where d: "d = (b, u)" by (cases d)
  from assms have "r = sequence start mx width (nxt s)"
    by (auto simp: Sequence_def split: if_splits)
  then show ?thesis by (simp add: d Append_sequence del: Append.simps)
qed

text \<open>
  Claim C6, as the code has it. Construction fails exactly when: \<open>Repeat\<close> has
  \<open>max == 0\<close> or \<open>max < min\<close>; \<open>Potentially\<close> has a probability \<open>< 0\<close>; \<open>Sequence\<close> has
  \<open>max < start\<close>. The parts these three return add no error of their own to generation:
  an error of \<open>Append\<close> of a \<open>Repeat\<close> or \<open>Potentially\<close> result is an error of a child,
  and \<open>Append\<close> of a \<open>Sequence\<close> result has none. The Choice constructors and \<open>Shuffle\<close>
  never fail, and on an empty list their error, an index out of range, comes at
  generation.
\<close>

theorem C6_construction_errors:
  "((\<exists>e. Repeat mn mx p = Inl e) \<longleftrightarrow> mx = 0 \<or> mx < mn)
   \<and> ((\<exists>e. Potentially c q = Inl e) \<longleftrightarrow> f_lt c (Finite 0))
   \<and> ((\<exists>e. Sequence start smx width s = Inl e) \<longleftrightarrow> smx < start)
   \<and> (Repeat mn mx p = Inr r \<and> Append r d = Inl e \<longrightarrow> (\<exists>x\<in>set p. \<exists>d'. Append x d' = Inl e))
   \<and> (Potentially c q = Inr r \<and> Append r d = Inl e \<longrightarrow> (\<exists>d'. Append q d' = Inl e))
   \<and> (Sequence start smx width s = Inr (r, t) \<longrightarrow> Append r d \<noteq> Inl e)
   \<and> Append (OneOf []) (b, s) = Inl IndexOutOfRange
   \<and> Append (OneOfString []) (b, s) = Inl IndexOutOfRange
   \<and> Append (OneOfByte []) (b, s) = Inl IndexOutOfRange
   \<and> Append (OneOfRune []) (b, s) = Inl IndexOutOfRange
   \<and> Append (fst (Shuffle [] s)) (b, snd (Shuffle [] s)) = Inl IndexOutOfRange"
proof (intro conjI impI)
  show "(\<exists>e. Repeat mn mx p = Inl e) \<longleftrightarrow> mx = 0 \<or> mx < mn" by (rule Repeat_error_iff)
  show "(\<exists>e. Potentially c q = Inl e) \<longleftrightarrow> f_lt c (Finite 0)" by (rule Potentially_error_iff)
  show "(\<exists>e. Sequence start smx width s = Inl e) \<longleftrightarrow> smx < start" by (rule Sequence_error_iff)
  show "\<exists>x\<in>set p. \<exists>d'. Append x d' = Inl e" if "Repeat mn mx p = Inr r \<and> Append r d = Inl e"
    using that Repeat_no_own_error by blast
  show "\<exists>d'. Append q d' = Inl e" if "Potentially c q = Inr r \<and> Append r d = Inl e"
    using that Potentially_no_own_error by blast
  show "Append r d \<noteq> Inl e" if "Sequence start smx width s = Inr (r, t)"
    using that by (rule Sequence_no_error)
  show "Append (OneOf []) (b, s) = Inl IndexOutOfRange"
    by (simp add: OneOf_def Append_anyOf_empty del: Append.simps)
  show "Append (OneOfString []) (b, s) = Inl IndexOutOfRange"
    by (simp add: OneOfString_def Append_anyOfString_empty del: Append.simps)
  show "Append (OneOfByte []) (b, s) = Inl IndexOutOfRange"
    by (simp add: OneOfByte_def Append_anyOfByte_empty del: Append.simps)
  show "Append (OneOfRune []) (b, s) = Inl IndexOutOfRange"
    by (simp add: OneOfRune_def Append_anyOfRune_empty del: Append.simps)
  show "Append (fst (Shuffle [] s)) (b, snd (Shuffle [] s)) = Inl IndexOutOfRange"
    by (rule Append_Shuffle_empty)
qed

theorem C6_construction_errors_witness:
  "Repeat 1 3 [OneOfString []] = Inr (repeat [OneOfString []] 1 3)
   \<and> Append (repeat [OneOfString []] 1 3) ([], st0 (\<lambda>_. 0)) = Inl IndexOutOfRange
   \<and> (\<exists>x\<in>set [OneOfString []]. \<exists>d'. Append x d' = Inl IndexOutOfRange)
   \<and> Potentially (Finite (1 / 2)) (OneOfString []) = Inr (potentially50 (OneOfString []))
   \<and> Append (potentially50 (OneOfString [])) ([], st0 (\<lambda>_. 1)) = Inl IndexOutOfRange
   \<and> (\<exists>d'. Append (OneOfString []) d' = Inl IndexOutOfRange)
   \<and> Sequence 1 9 2 (st0 (\<lambda>_. 0))
       = Inr (sequence 1 9 2 0, (st0 (\<lambda>_. 0))\<lparr>cells := (\<lambda>_. 0)(0 := 0), nxt := 1\<rparr>)
   \<and> Append (sequence 1 9 2 0) ([], st0 (\<lambda>_. 0)) \<noteq> Inl IndexOutOfRange
   \<and> ((\<exists>e. Repeat 2 1 [] = Inl e) \<longleftrightarrow> (1::uint32) = 0 \<or> (1::uint32) < 2)"
proof -
  let ?s0 = "st0 (\<lambda>_. 0)"
  let ?s1 = "st0 (\<lambda>_. 1)"
  let ?x = "OneOfString []"
  have a: "Repeat 1 3 [?x] = Inr (repeat [?x] 1 3)" by (simp add: Repeat_def)
  have "unat (RandN_val 3 0) = 0" by (simp add: unat_RandN_val)
  then have z: "RandN_val 3 0 = 0" by (simp only: unat_eq_0)
  have b: "Append (repeat [?x] 1 3) ([], ?s0) = Inl IndexOutOfRange"
    by (simp add: Append_repeat z st0_def OneOfString_def
          Append_anyOfString_empty del: Append.simps)
  have c: "Potentially (Finite (1 / 2)) ?x = Inr (potentially50 ?x)"
    by (simp add: Potentially_def f_lt_def f_eq_def f_ge_def)
  have d: "Append (potentially50 ?x) ([], ?s1) = Inl IndexOutOfRange"
    by (simp add: Fastrand_def st0_def OneOfString_def RandN_eq index_Nil)
  have e: "Sequence 1 9 2 ?s0 = Inr (sequence 1 9 2 0, ?s0\<lparr>cells := (\<lambda>_. 0)(0 := 0), nxt := 1\<rparr>)"
    by (simp add: Sequence_def st0_def)
  note t = C6_construction_errors [where mn = 1 and mx = 3 and p = "[?x]" and r = "repeat [?x] 1 3"
      and d = "([], ?s0)" and e = IndexOutOfRange]
  from t a b have 1: "\<exists>x\<in>set [?x]. \<exists>d'. Append x d' = Inl IndexOutOfRange" by blast
  note u = C6_construction_errors [where c = "Finite (1 / 2)" and q = ?x and r = "potentially50 ?x"
      and d = "([], ?s1)" and e = IndexOutOfRange]
  from u c d have 2: "\<exists>d'. Append ?x d' = Inl IndexOutOfRange" by blast
  note v = C6_construction_errors [where start = 1 and smx = 9 and width = 2 and s = ?s0
      and r = "sequence 1 9 2 0" and t = "?s0\<lparr>cells := (\<lambda>_. 0)(0 := 0), nxt := 1\<rparr>"
      and d = "([], ?s0)" and e = IndexOutOfRange]
  from v e have 3: "Append (sequence 1 9 2 0) ([], ?s0) \<noteq> Inl IndexOutOfRange" by blast
  note w = C6_construction_errors [where mn = 2 and mx = 1 and p = "[]"]
  from w have 4: "(\<exists>e. Repeat 2 1 [] = Inl e) \<longleftrightarrow> (1::uint32) = 0 \<or> (1::uint32) < 2" by blast
  show ?thesis by (intro conjI) (rule a b c d e 1 2 3 4)+
qed

text \<open>
  Claim C6 as stated fails: \<open>OneOfString\<close> of the empty list is constructed without
  error, and its error comes at generation time.
\<close>

theorem C6_construction_errors_counterexample:
  "OneOfString [] = anyOfString [] 0
   \<and> out (Append (OneOfString []) ([], st0 (\<lambda>_. 0))) = Inl IndexOutOfRange"
  by (simp add: out_def OneOfString_def Append_anyOfString_empty del: Append.simps)


section \<open>Shuffle and the permutations of its children\<close>

text \<open>
  The array of a \<open>shuffle\<close> holds the positions of its children in their current order.
  First the pass as a function of its draws: appending a last element to the list does
  not change what the draws before it do, every arrangement of the list is reached by
  some tuple of draws, and, the elements being distinct, by one tuple only.
\<close>

lemma swapl_append:
  "i < length ys \<Longrightarrow> j < length ys \<Longrightarrow> swapl (ys @ zs) i j = swapl ys i j @ zs"
  by (simp add: swapl_def nth_append list_update_append)

lemma fy_pure_append:
  "valid_draws js \<Longrightarrow> length js < length ys \<Longrightarrow> fy_pure js (ys @ zs) = fy_pure js ys @ zs"
proof (induction js arbitrary: ys)
  case Nil
  show ?case by simp
next
  case (Cons j js)
  then have "swapl (ys @ zs) (Suc (length js)) j = swapl ys (Suc (length js)) j @ zs"
    by (intro swapl_append) simp_all
  with Cons show ?case by simp
qed

lemma swapl_snoc:
  assumes "j \<le> length ys"
  shows "swapl (ys @ [y]) (length ys) j = butlast (swapl (ys @ [y]) (length ys) j) @ [(ys @ [y]) ! j]"
proof -
  let ?xs = "swapl (ys @ [y]) (length ys) j"
  have len: "length ?xs = Suc (length ys)" by simp
  then have ne: "?xs \<noteq> []" by (metis length_0_conv nat.distinct(1))
  have "last ?xs = ?xs ! length ys" using len ne by (simp add: last_conv_nth)
  also have "\<dots> = (ys @ [y]) ! j"
    using assms by (cases "j = length ys") (simp_all add: swapl_def nth_list_update)
  finally have "last ?xs = (ys @ [y]) ! j" .
  with append_butlast_last_id [OF ne] show ?thesis by simp
qed

lemma fy_pure_Cons_snoc:
  assumes "valid_draws (j # js)" and "length ys = Suc (length js)"
  shows "fy_pure (j # js) (ys @ [y])
         = fy_pure js (butlast (swapl (ys @ [y]) (length ys) j)) @ [(ys @ [y]) ! j]"
proof -
  from assms have j: "j \<le> length ys" and v: "valid_draws js" by simp_all
  let ?xs = "swapl (ys @ [y]) (length ys) j"
  have "fy_pure (j # js) (ys @ [y]) = fy_pure js ?xs" using assms(2) by simp
  also have "\<dots> = fy_pure js (butlast ?xs @ [(ys @ [y]) ! j])"
    using swapl_snoc [OF j, of y] by simp
  also have "\<dots> = fy_pure js (butlast ?xs) @ [(ys @ [y]) ! j]"
    using v assms(2) by (intro fy_pure_append) simp_all
  finally show ?thesis .
qed

lemma mset_butlast_swapl:
  assumes "j \<le> length ys"
  shows "mset (butlast (swapl (ys @ [y]) (length ys) j)) + {#(ys @ [y]) ! j#} = mset (ys @ [y])"
proof -
  let ?xs = "swapl (ys @ [y]) (length ys) j"
  from assms have "mset ?xs = mset (ys @ [y])" by (intro mset_swapl) simp_all
  moreover have "mset ?xs = mset (butlast ?xs @ [(ys @ [y]) ! j])"
    using swapl_snoc [OF assms, of y] by simp
  ultimately show ?thesis by simp
qed

lemma fy_pure_surj:
  "length xs = Suc m \<Longrightarrow> mset zs = mset xs
   \<Longrightarrow> \<exists>js. length js = m \<and> valid_draws js \<and> fy_pure js xs = zs"
proof (induction m arbitrary: xs zs)
  case 0
  then obtain x where x: "xs = [x]" by (cases xs) auto
  with 0 have "zs = [x]" by (metis mset_single_iff_right mset.simps(1) mset.simps(2))
  with x show ?case by (intro exI [of _ "[]"]) simp
next
  case (Suc m)
  from Suc.prems(1) obtain ys y where xs: "xs = ys @ [y]" and ly: "length ys = Suc m"
    by (cases xs rule: rev_cases) auto
  from Suc.prems have "length zs = Suc (Suc m)" using mset_eq_length by fastforce
  then obtain ws w where zs: "zs = ws @ [w]" and lw: "length ws = Suc m"
    by (cases zs rule: rev_cases) auto
  from Suc.prems(2) have "w \<in> set xs" by (metis in_set_conv_decomp mset_eq_setD zs)
  then obtain j where j: "j < length xs" and xj: "xs ! j = w" by (auto simp: in_set_conv_nth)
  with xs ly have jl: "j \<le> length ys" by simp
  let ?rest = "butlast (swapl (ys @ [y]) (length ys) j)"
  from mset_butlast_swapl [OF jl, of y] xj Suc.prems(2)
  have "mset ?rest + {#w#} = mset ws + {#w#}" by (simp add: xs zs)
  then have m: "mset ws = mset ?rest" by simp
  have lr: "length ?rest = Suc m" by (simp add: ly)
  from Suc.IH [OF lr m] obtain js where js: "length js = m" "valid_draws js" "fy_pure js ?rest = ws"
    by blast
  from js jl ly have v: "valid_draws (j # js)" by simp
  from js ly have l2: "length ys = Suc (length js)" by simp
  from fy_pure_Cons_snoc [OF v l2, of y] js xj
  have "fy_pure (j # js) xs = zs" by (simp add: xs zs)
  with js v show ?case by (intro exI [of _ "j # js"]) simp
qed

lemma fy_pure_inj:
  "distinct xs \<Longrightarrow> length xs = Suc (length js) \<Longrightarrow> length js' = length js
   \<Longrightarrow> valid_draws js \<Longrightarrow> valid_draws js' \<Longrightarrow> fy_pure js xs = fy_pure js' xs
   \<Longrightarrow> js = js'"
proof (induction js arbitrary: xs js')
  case Nil
  then show ?case by simp
next
  case (Cons j js)
  from Cons.prems(3) obtain j' js2 where js': "js' = j' # js2" and l2: "length js2 = length js"
    by (cases js') auto
  from Cons.prems(2) obtain ys y where xs: "xs = ys @ [y]" and ly: "length ys = Suc (length js)"
    by (cases xs rule: rev_cases) auto
  from Cons.prems(5) js' have v': "valid_draws (j' # js2)" by simp
  from ly l2 have ly': "length ys = Suc (length js2)" by simp
  from Cons.prems(4) ly have jl: "j \<le> length ys" by simp
  from v' ly' have jl': "j' \<le> length ys" by simp
  let ?r = "butlast (swapl (ys @ [y]) (length ys) j)"
  let ?r' = "butlast (swapl (ys @ [y]) (length ys) j')"
  from Cons.prems(6) fy_pure_Cons_snoc [OF Cons.prems(4) ly, of y] fy_pure_Cons_snoc [OF v' ly', of y]
  have eq: "fy_pure js ?r @ [(ys @ [y]) ! j] = fy_pure js2 ?r' @ [(ys @ [y]) ! j']"
    by (simp add: xs js')
  then have "(ys @ [y]) ! j = (ys @ [y]) ! j'" by simp
  with Cons.prems(1) jl jl' have jj: "j = j'"
    by (simp add: xs nth_eq_iff_index_eq del: distinct_append)
  from eq jj have e2: "fy_pure js ?r = fy_pure js2 ?r" by simp
  have "mset (swapl (ys @ [y]) (length ys) j) = mset (ys @ [y])"
    using jl by (intro mset_swapl) simp_all
  with Cons.prems(1) have "distinct (swapl (ys @ [y]) (length ys) j)"
    by (metis mset_eq_imp_distinct_iff xs)
  then have d: "distinct ?r" by (rule distinct_butlast)
  have lr: "length ?r = Suc (length js)" by (simp add: ly)
  from Cons.prems(4) v' have "valid_draws js" "valid_draws js2" by simp_all
  from Cons.IH [OF d lr l2 this e2] jj js' show ?case by simp
qed


lemma draws_for_one: "draws_for (Suc 0) = {[]}"
  by (auto simp: draws_for_def)

lemma draws_for_Suc:
  "draws_for (Suc (Suc m)) = (\<lambda>(j, js). j # js) ` ({..Suc m} \<times> draws_for (Suc m))"
proof (rule set_eqI)
  fix ks
  show "ks \<in> draws_for (Suc (Suc m)) \<longleftrightarrow> ks \<in> (\<lambda>(j, js). j # js) ` ({..Suc m} \<times> draws_for (Suc m))"
  proof
    assume "ks \<in> draws_for (Suc (Suc m))"
    then have l: "length ks = Suc m" and v: "valid_draws ks" by (simp_all add: draws_for_def)
    from l obtain j js where ks: "ks = j # js" and "length js = m" by (cases ks) auto
    with v have "j \<in> {..Suc m}" "js \<in> draws_for (Suc m)" by (simp_all add: draws_for_def)
    then have "(j, js) \<in> {..Suc m} \<times> draws_for (Suc m)" by simp
    then have "(\<lambda>(j, js). j # js) (j, js) \<in> (\<lambda>(j, js). j # js) ` ({..Suc m} \<times> draws_for (Suc m))"
      by (rule imageI)
    with ks show "ks \<in> (\<lambda>(j, js). j # js) ` ({..Suc m} \<times> draws_for (Suc m))" by simp
  next
    assume "ks \<in> (\<lambda>(j, js). j # js) ` ({..Suc m} \<times> draws_for (Suc m))"
    then obtain j js where "ks = j # js" "j \<le> Suc m" "js \<in> draws_for (Suc m)" by auto
    then show "ks \<in> draws_for (Suc (Suc m))" by (simp add: draws_for_def)
  qed
qed

lemma finite_draws_for: "finite (draws_for (Suc m))"
  by (induction m) (simp_all add: draws_for_one draws_for_Suc)

lemma card_draws_for: "card (draws_for (Suc m)) = fact (Suc m)"
proof (induction m)
  case 0
  show ?case by (simp add: draws_for_one)
next
  case (Suc m)
  have inj: "inj_on (\<lambda>(j, js). j # js) ({..Suc m} \<times> draws_for (Suc m))"
    by (auto simp: inj_on_def)
  have "card (draws_for (Suc (Suc m))) = card ({..Suc m} \<times> draws_for (Suc m))"
    by (simp only: draws_for_Suc card_image [OF inj])
  also have "\<dots> = Suc (Suc m) * fact (Suc m)"
    by (simp only: card_cartesian_product card_atMost Suc.IH)
  finally show ?case by simp
qed

lemma fy_pure_bij:
  assumes "distinct xs" and "xs \<noteq> []"
  shows "bij_betw (\<lambda>js. fy_pure js xs) (draws_for (length xs)) {ys. mset ys = mset xs}"
proof -
  from assms(2) obtain m where m: "length xs = Suc m" by (cases xs) auto
  have inj: "inj_on (\<lambda>js. fy_pure js xs) (draws_for (length xs))"
  proof (rule inj_onI)
    fix js js'
    assume "js \<in> draws_for (length xs)" "js' \<in> draws_for (length xs)"
      and e: "fy_pure js xs = fy_pure js' xs"
    then have "length xs = Suc (length js)" "length js' = length js" "valid_draws js" "valid_draws js'"
      by (simp_all add: draws_for_def)
    from fy_pure_inj [OF assms(1) this e] show "js = js'" .
  qed
  have img: "(\<lambda>js. fy_pure js xs) ` draws_for (length xs) = {ys. mset ys = mset xs}"
  proof (rule set_eqI)
    fix ys
    show "ys \<in> (\<lambda>js. fy_pure js xs) ` draws_for (length xs) \<longleftrightarrow> ys \<in> {ys. mset ys = mset xs}"
    proof
      assume "ys \<in> (\<lambda>js. fy_pure js xs) ` draws_for (length xs)"
      then obtain js where "ys = fy_pure js xs" "Suc (length js) = length xs" "valid_draws js"
        by (auto simp: draws_for_def)
      then show "ys \<in> {ys. mset ys = mset xs}" by (simp add: mset_fy_pure)
    next
      assume "ys \<in> {ys. mset ys = mset xs}"
      then have "mset ys = mset xs" by simp
      from fy_pure_surj [OF m this] obtain js where
        "length js = m" "valid_draws js" "fy_pure js xs = ys" by blast
      with m have "js \<in> draws_for (length xs)" "fy_pure js xs = ys" by (simp_all add: draws_for_def)
      then show "ys \<in> (\<lambda>js. fy_pure js xs) ` draws_for (length xs)" by blast
    qed
  qed
  from inj img show ?thesis by (simp only: bij_betw_def)
qed

lemma fisher_yates_other:
  "fisher_yates a' i s = Inr s' \<Longrightarrow> a \<noteq> a' \<Longrightarrow> arrs s' a = arrs s a"
proof (induction "unat i" arbitrary: i s)
  case 0
  then have "i = 0" by (simp add: unat_eq_0)
  with 0 show ?case by (simp add: fisher_yates_zero)
next
  case (Suc m)
  then have i0: "i \<noteq> 0" by auto
  let ?j = "unat (RandN_val (i + 1) (rnd s (pos s)))"
  from Suc.prems(1) obtain arr where
    rest: "fisher_yates a' (i - 1) (s\<lparr>pos := pos s + 1, arrs := (arrs s)(a' := arr)\<rparr>) = Inr s'"
    by (auto simp: fisher_yates_step [OF i0] split: sum.splits)
  from Suc.hyps(2) i0 have "m = unat (i - 1)" by (simp add: unat_minus_one)
  from Suc.hyps(1) [OF this rest Suc.prems(2)] Suc.prems(2) show ?case by simp
qed

lemma Append_arrs_other:
  "Append p c = Inr c' \<Longrightarrow> a \<notin> addrs p \<Longrightarrow> arrs (snd c') a = arrs (snd c) a"
proof (induction p c arbitrary: c' rule: Append.induct)
  case (1 ps c)
  from "1.prems"(1) have e: "each Append ps c = Inr c'" by simp
  show ?case
  proof (rule each_pres [where \<phi> = "\<lambda>c. arrs (snd c) a", OF _ e])
    fix p x x'
    assume p: "p \<in> set ps" and ap: "Append p x = Inr x'"
    with "1.prems"(2) have "a \<notin> addrs p" by auto
    from "1.IH" [OF p ap this] show "arrs (snd x') a = arrs (snd x) a" .
  qed
next
  case (2 c)
  then show ?case by simp
next
  case (3 ps c)
  from "3.prems"(1) have e: "each Append ps c = Inr c'" by simp
  show ?case
  proof (rule each_pres [where \<phi> = "\<lambda>c. arrs (snd c) a", OF _ e])
    fix p x x'
    assume p: "p \<in> set ps" and ap: "Append p x = Inr x'"
    with "3.prems"(2) have "a \<notin> addrs p" by auto
    from "3.IH" [OF p ap this] show "arrs (snd x') a = arrs (snd x) a" .
  qed
next
  case (4 ps mn maxr b s)
  from "4.prems"(1) have n: "ntimes (unat (RandN_val maxr (rnd s (pos s)) + mn)) (each Append ps)
         (b, s\<lparr>pos := pos s + 1\<rparr>) = Inr c'"
    by (simp only: Append_repeat)
  have "\<And>d d'. each Append ps d = Inr d' \<Longrightarrow> arrs (snd d') a = arrs (snd d) a"
  proof -
    fix d d'
    assume e: "each Append ps d = Inr d'"
    show "arrs (snd d') a = arrs (snd d) a"
    proof (rule each_pres [where \<phi> = "\<lambda>c. arrs (snd c) a", OF _ e])
      fix p x x'
      assume p: "p \<in> set ps" and ap: "Append p x = Inr x'"
      with "4.prems"(2) have "a \<notin> addrs p" by auto
      from "4.IH" [OF RandN_eq [symmetric] refl refl p ap this]
      show "arrs (snd x') a = arrs (snd x) a" .
    qed
  qed
  from ntimes_pres [where \<phi> = "\<lambda>c. arrs (snd c) a", OF this n] show ?case by simp
next
  case (5 p b s)
  show ?case
  proof (cases "rnd s (pos s) AND 1 = 1")
    case True
    with "5.prems"(1) have ap: "Append p (b, s\<lparr>pos := pos s + 1\<rparr>) = Inr c'"
      by (simp add: Fastrand_def)
    have f: "(rnd s (pos s), s\<lparr>pos := pos s + 1\<rparr>) = Fastrand s"
      by (simp add: Fastrand_def)
    from "5.prems"(2) have "a \<notin> addrs p" by simp
    from "5.IH" [OF f refl True ap this] show ?thesis by simp
  next
    case False
    with "5.prems"(1) show ?thesis by (auto simp: Fastrand_def)
  qed
next
  case (6 p percent b s)
  obtain x s1 where r: "RandFloat64 s = (x, s1)" by (cases "RandFloat64 s")
  then have s1: "arrs s1 = arrs s" by (auto simp: RandFloat64_def Fastrand_def)
  show ?case
  proof (cases "f_le x percent")
    case True
    with "6.prems"(1) r have ap: "Append p (b, s1) = Inr c'" by simp
    from "6.prems"(2) have "a \<notin> addrs p" by simp
    from "6.IH" [OF r [symmetric] refl True ap this] s1 show ?thesis by simp
  next
    case False
    with "6.prems"(1) r s1 show ?thesis by auto
  qed
next
  case (7 l b s)
  then show ?case by auto
next
  case (8 ps len b s)
  obtain n s1 where r: "RandN len s = (n, s1)" by (cases "RandN len s")
  then have s1: "arrs s1 = arrs s" by (auto simp: RandN_eq)
  from r "8.prems"(1) obtain p where p: "index ps (unat n) = Inr p" and ap: "Append p (b, s1) = Inr c'"
    by (auto split: sum.splits)
  from p have "p \<in> set ps" by (auto simp: index_def split: if_splits)
  with "8.prems"(2) have "a \<notin> addrs p" by auto
  from "8.IH" [OF r [symmetric] refl p ap this] s1 show ?case by simp
next
  case (9 alphabet len b s)
  then show ?case by (auto simp: RandN_eq split: sum.splits)
next
  case (10 alphabet len b s)
  then show ?case by (auto simp: RandN_eq split: sum.splits)
next
  case (11 alphabet len b s)
  then show ?case by (auto simp: RandN_eq split: sum.splits)
next
  case (12 a' ps len b s)
  from "12.prems"(2) have ne: "a \<noteq> a'" by auto
  from "12.prems"(1) obtain s1 where fy: "fisher_yates a' (len - 1) s = Inr s1"
    and e: "each (\<lambda>i (b, s). case index (arrs s a') i of
                             Inl e \<Rightarrow> Inl e
                           | Inr k \<Rightarrow> (case index ps k of
                                         Inl e \<Rightarrow> Inl e
                                       | Inr p \<Rightarrow> Append p (b, s)))
               [0..<unat len] (b, s1) = Inr c'"
    by (auto split: sum.splits)
  have "arrs (snd c') a = arrs (snd (b, s1)) a"
  proof (rule each_pres [where \<phi> = "\<lambda>c. arrs (snd c) a", OF _ e])
    fix i c c2
    assume i: "i \<in> set [0..<unat len]"
      and f: "(case c of (b, s) \<Rightarrow> case index (arrs s a') i of
                             Inl e \<Rightarrow> Inl e
                           | Inr k \<Rightarrow> (case index ps k of
                                         Inl e \<Rightarrow> Inl e
                                       | Inr p \<Rightarrow> Append p (b, s))) = Inr c2"
    obtain b2 s2 where c: "c = (b2, s2)" by (cases c)
    with f obtain k p where k: "index (arrs s2 a') i = Inr k" and p: "index ps k = Inr p"
      and ap: "Append p (b2, s2) = Inr c2"
      by (auto split: sum.splits)
    from p have "p \<in> set ps" by (auto simp: index_def split: if_splits)
    with "12.prems"(2) have "a \<notin> addrs p" by auto
    from "12.IH" [OF fy i refl k p ap this] show "arrs (snd c2) a = arrs (snd c) a" by (simp add: c)
  qed
  with fisher_yates_other [OF fy ne] show ?case by simp
next
  case (13 start mx width a' b s)
  then have "c' = (b @ wrap_padded width (unat (seq_next start mx (cells s a'))),
                   s\<lparr>cells := (cells s)(a' := seq_next start mx (cells s a'))\<rparr>)"
    by (simp only: Append_sequence sum.inject)
  then show ?case by simp
qed


lemma shuffle_loop:
  assumes "\<forall>p\<in>set ps. a \<notin> addrs p"
    and "\<forall>i\<in>set ix. i < length (arrs s a)"
    and "\<forall>k\<in>set (arrs s a). k < length ps"
  shows "each (\<lambda>i (b, s). case index (arrs s a) i of
                             Inl e \<Rightarrow> Inl e
                           | Inr k \<Rightarrow> (case index ps k of
                                         Inl e \<Rightarrow> Inl e
                                       | Inr p \<Rightarrow> Append p (b, s)))
               ix (b, s)
         = each Append (map (\<lambda>i. ps ! (arrs s a ! i)) ix) (b, s)"
  using assms(2,3)
proof (induction ix arbitrary: b s)
  case Nil
  show ?case by simp
next
  case (Cons i ix)
  let ?k = "arrs s a ! i"
  from Cons.prems have i: "i < length (arrs s a)" by simp
  then have "?k \<in> set (arrs s a)" by simp
  with Cons.prems(2) have k: "?k < length ps" by blast
  then have mem: "ps ! ?k \<in> set ps" by simp
  show ?case
  proof (cases "Append (ps ! ?k) (b, s)")
    case (Inl e)
    with i k show ?thesis by (simp add: index_def del: Append.simps)
  next
    case (Inr c1)
    obtain b1 s1 where c1: "c1 = (b1, s1)" by (cases c1)
    from mem assms(1) have "a \<notin> addrs (ps ! ?k)" by blast
    from Append_arrs_other [OF Inr this] have same: "arrs s1 a = arrs s a" by (simp add: c1)
    from Cons.prems same have "\<forall>i\<in>set ix. i < length (arrs s1 a)"
      and "\<forall>k\<in>set (arrs s1 a). k < length ps" by simp_all
    from Cons.IH [OF this, of b1] same Inr i k show ?thesis
      by (simp add: index_def c1 del: Append.simps)
  qed
qed


lemma perm_indices:
  assumes "mset arr = mset [0..<n]"
  shows "length arr = n" and "distinct arr" and "\<forall>k\<in>set arr. k < n"
proof -
  from assms have "length arr = length [0..<n]" by (rule mset_eq_length)
  then show "length arr = n" by simp
  from assms have "distinct arr = distinct [0..<n]" by (rule mset_eq_imp_distinct_iff)
  then show "distinct arr" by simp
  from assms have "set arr = set [0..<n]" by (rule mset_eq_setD)
  then show "\<forall>k\<in>set arr. k < n" by simp
qed

lemma unat_len:
  assumes "n < 2 ^ 32"
  shows "unat (of_nat n :: uint32) = n"
  using assms by (simp add: unsigned_of_nat take_bit_nat_eq_self)

lemma unat_len_pred:
  assumes "0 < n" and "n < 2 ^ 32"
  shows "unat (of_nat n - 1 :: uint32) = n - 1"
proof -
  from assms have "unat (of_nat n :: uint32) = n" by (simp add: unat_len)
  moreover from this assms(1) have "(of_nat n :: uint32) \<noteq> 0" by auto
  ultimately show ?thesis by (simp add: unat_minus_one)
qed

lemma fisher_yates_shuffle:
  assumes "ps \<noteq> []" and "length ps < 2 ^ 32" and "length (arrs s a) = length ps"
  shows "fisher_yates a (of_nat (length ps) - 1) s
         = Inr (s\<lparr>pos := pos s + (length ps - 1),
                  arrs := (arrs s)(a := fy_pure (code_draws (length ps - 1) (rnd s) (pos s))
                                             (arrs s a))\<rparr>)"
proof -
  from assms(1) have pos: "0 < length ps" by simp
  have u: "unat (of_nat (length ps) - 1 :: uint32) = length ps - 1"
    using pos assms(2) by (rule unat_len_pred)
  with pos assms(3) have "unat (of_nat (length ps) - 1 :: uint32) < length (arrs s a)" by simp
  from fisher_yates_eq [OF this] show ?thesis by (simp only: u)
qed

lemma Append_shuffle_eq:
  assumes ne: "ps \<noteq> []" and lt: "length ps < 2 ^ 32"
    and arr: "mset (arrs s a) = mset [0..<length ps]"
    and fresh: "\<forall>p\<in>set ps. a \<notin> addrs p"
  shows "Append (shuffle a ps (of_nat (length ps))) (b, s)
         = each Append
             (map ((!) ps) (fy_pure (code_draws (length ps - 1) (rnd s) (pos s)) (arrs s a)))
             (b, s\<lparr>pos := pos s + (length ps - 1),
                   arrs := (arrs s)(a := fy_pure (code_draws (length ps - 1) (rnd s) (pos s))
                                              (arrs s a))\<rparr>)"
proof -
  let ?n = "length ps"
  let ?js = "code_draws (?n - 1) (rnd s) (pos s)"
  let ?arr = "fy_pure ?js (arrs s a)"
  let ?s1 = "s\<lparr>pos := pos s + (?n - 1), arrs := (arrs s)(a := ?arr)\<rparr>"
  from ne have pos: "0 < ?n" by simp
  from perm_indices(1) [OF arr] have la: "length (arrs s a) = ?n" .
  have fy: "fisher_yates a (of_nat ?n - 1) s = Inr ?s1"
    using ne lt la by (rule fisher_yates_shuffle)
  have v: "valid_draws ?js" using lt by (intro valid_code_draws) simp
  have "mset ?arr = mset (arrs s a)"
    using v pos la by (intro mset_fy_pure) simp_all
  with arr have m1: "mset (arrs ?s1 a) = mset [0..<?n]" by simp
  from perm_indices(1) [OF m1] have l1: "length (arrs ?s1 a) = ?n" .
  from perm_indices(3) [OF m1] have k1: "\<forall>k\<in>set (arrs ?s1 a). k < ?n" .
  from l1 have i1: "\<forall>i\<in>set [0..<?n]. i < length (arrs ?s1 a)" by simp
  have a1: "arrs ?s1 a = ?arr" by simp
  have "map (\<lambda>i. ps ! (?arr ! i)) [0..<?n] = map ((!) ps) (map ((!) ?arr) [0..<length ?arr])"
    using l1 by (simp only: a1 map_map comp_def)
  also have "\<dots> = map ((!) ps) ?arr" by (simp only: map_nth)
  finally have mp: "map (\<lambda>i. ps ! (arrs ?s1 a ! i)) [0..<?n] = map ((!) ps) ?arr"
    by (simp only: a1)
  have "Append (shuffle a ps (of_nat ?n)) (b, s)
        = each (\<lambda>i (b, s). case index (arrs s a) i of
                             Inl e \<Rightarrow> Inl e
                           | Inr k \<Rightarrow> (case index ps k of
                                         Inl e \<Rightarrow> Inl e
                                       | Inr p \<Rightarrow> Append p (b, s)))
               [0..<?n] (b, ?s1)"
    by (simp only: Append.simps fy sum.case unat_len [OF lt])
  also have "\<dots> = each Append (map (\<lambda>i. ps ! (arrs ?s1 a ! i)) [0..<?n]) (b, ?s1)"
    using fresh i1 k1 by (rule shuffle_loop)
  finally show ?thesis by (simp only: mp)
qed

lemma code_draws_in:
  assumes "ps \<noteq> []" and "length ps < 2 ^ 32"
  shows "code_draws (length ps - 1) f p \<in> draws_for (length ps)"
proof -
  from assms(2) have "valid_draws (code_draws (length ps - 1) f p)"
    by (intro valid_code_draws) simp
  with assms(1) show ?thesis by (simp add: draws_for_def)
qed

lemma card_draws_for_length: "ps \<noteq> [] \<Longrightarrow> card (draws_for (length ps)) = fact (length ps)"
  using card_draws_for [of "length ps - 1"] by simp

lemma fy_pure_bij_indices:
  assumes "ps \<noteq> []" and "mset arr = mset [0..<length ps]"
  shows "bij_betw (\<lambda>js. fy_pure js arr) (draws_for (length ps))
           {ys. mset ys = mset [0..<length ps]}"
proof -
  from perm_indices(1) [OF assms(2)] have l: "length arr = length ps" .
  with assms(1) have "arr \<noteq> []" by auto
  from fy_pure_bij [OF perm_indices(2) [OF assms(2)] this] show ?thesis
    by (simp only: l assms(2))
qed

lemma Append_shuffle_wrap:
  assumes "length (arrs s a) = 2 ^ 32"
  shows "out (Append (shuffle a ps 0) (b, s)) = Inr b"
proof -
  have "unat (- 1 :: uint32) = 2 ^ 32 - 1"
    by (simp add: unsigned_minus_1_eq_mask mask_eq_exp_minus_1)
  with assms have "unat (- 1 :: uint32) < length (arrs s a)" by simp
  from fisher_yates_eq [OF this] obtain s1 where "fisher_yates a (- 1) s = Inr s1" by blast
  then show ?thesis by (simp add: out_def)
qed

lemma each_Append_literals:
  "each Append (replicate n (literal l)) (b, s) = Inr (b @ concat (replicate n l), s)"
  by (induction n arbitrary: b) simp_all

lemma perm_prob_eq:
  assumes "ps \<noteq> []" and "mset arr = mset [0..<length ps]" and "mset ys = mset [0..<length ps]"
  shows "perm_prob arr ys = 1 / fact (length ps)"
proof -
  let ?D = "draws_for (length ps)"
  from perm_indices(1) [OF assms(2)] have l: "length arr = length ps" .
  from fy_pure_bij_indices [OF assms(1,2)]
  have inj: "inj_on (\<lambda>js. fy_pure js arr) ?D"
    and img: "(\<lambda>js. fy_pure js arr) ` ?D = {ys. mset ys = mset [0..<length ps]}"
    by (simp_all only: bij_betw_def)
  from assms(3) have "ys \<in> {ys. mset ys = mset [0..<length ps]}" by simp
  then have "ys \<in> (\<lambda>js. fy_pure js arr) ` ?D" by (simp only: img)
  then obtain js0 where js0': "ys = fy_pure js0 arr" "js0 \<in> ?D" by (rule imageE)
  then have js0: "js0 \<in> ?D" "fy_pure js0 arr = ys" by simp_all
  have "{js \<in> ?D. fy_pure js arr = ys} = {js0}"
  proof (rule set_eqI)
    fix js
    show "js \<in> {js \<in> ?D. fy_pure js arr = ys} \<longleftrightarrow> js \<in> {js0}"
    proof
      assume "js \<in> {js \<in> ?D. fy_pure js arr = ys}"
      then have m: "js \<in> ?D" and e: "fy_pure js arr = fy_pure js0 arr" using js0 by simp_all
      from inj e m js0(1) have "js = js0" by (rule inj_onD)
      then show "js \<in> {js0}" by simp
    next
      assume "js \<in> {js0}"
      with js0 show "js \<in> {js \<in> ?D. fy_pure js arr = ys}" by simp
    qed
  qed
  then have "card {js \<in> ?D. fy_pure js arr = ys} = 1" by simp
  moreover have "card ?D = fact (length ps)" using assms(1) by (rule card_draws_for_length)
  ultimately show ?thesis by (simp add: perm_prob_def l)
qed

lemma RandN_val_raw_zero: "RandN_val n 0 = 0"
proof -
  have "unat (RandN_val n 0) = 0" by (simp add: unat_RandN_val)
  then show ?thesis by (simp only: unat_eq_0)
qed

lemma code_draws_zero: "code_draws m (\<lambda>_. 0) p = replicate m 0"
  by (induction m arbitrary: p) (simp_all add: RandN_val_raw_zero del: of_nat_Suc)

lemma many_length: "length many = 2 ^ 32"
  by (simp add: many_def)

text \<open>
  Claim C7, as the code has it. \<open>Shuffle\<close> stores the children, their count as a 32-bit
  number and a new array with the children in the order given. For a non-empty list of
  fewer than \<open>2^32\<close> children whose array holds every child once (as \<open>Shuffle\<close>
  allocates it and as every \<open>Append\<close> of any part leaves it), and whose children do not
  share that array (a part owns its children), \<open>Append\<close> first runs the pass: for
  \<open>i\<close> from \<open>count - 1\<close> down to 1 it draws \<open>j = RandN(i + 1)\<close> and exchanges the
  elements at \<open>i\<close> and \<open>j\<close>, which is \<open>fy_pure\<close> on the draws \<open>code_draws\<close>; then it
  appends the children in the order the array now has. The draws of the code are a tuple
  of \<open>draws_for\<close>; the pass maps these tuples one-to-one onto the arrangements of the
  children, there are \<open>count!\<close> of them, and so every arrangement has probability
  \<open>1 / count!\<close> when every tuple of draws is equally likely.
\<close>

theorem C7_Shuffle:
  assumes "ps \<noteq> []" and "length ps < 2 ^ 32"
    and "mset (arrs s a) = mset [0..<length ps]"
    and "\<forall>p\<in>set ps. a \<notin> addrs p"
  shows "Shuffle ps t = (shuffle (nxt t) ps (of_nat (length ps)),
                         t\<lparr>arrs := (arrs t)(nxt t := [0..<length ps]), nxt := nxt t + 1\<rparr>)
       \<and> fisher_yates a (of_nat (length ps) - 1) s
           = Inr (s\<lparr>pos := pos s + (length ps - 1),
                    arrs := (arrs s)(a := fy_pure (code_draws (length ps - 1) (rnd s) (pos s))
                                               (arrs s a))\<rparr>)
       \<and> Append (shuffle a ps (of_nat (length ps))) (b, s)
           = each Append
               (map ((!) ps) (fy_pure (code_draws (length ps - 1) (rnd s) (pos s)) (arrs s a)))
               (b, s\<lparr>pos := pos s + (length ps - 1),
                     arrs := (arrs s)(a := fy_pure (code_draws (length ps - 1) (rnd s) (pos s))
                                                (arrs s a))\<rparr>)
       \<and> code_draws (length ps - 1) (rnd s) (pos s) \<in> draws_for (length ps)
       \<and> bij_betw (\<lambda>js. fy_pure js (arrs s a)) (draws_for (length ps))
                   {ys. mset ys = mset [0..<length ps]}
       \<and> card (draws_for (length ps)) = fact (length ps)
       \<and> (mset ys = mset [0..<length ps] \<longrightarrow>
            perm_prob (arrs s a) ys = 1 / fact (length ps))
       \<and> (Append q (b, s) = Inr (b', s') \<longrightarrow> mset (arrs s' a) = mset [0..<length ps])"
proof (intro conjI impI)
  show "Shuffle ps t = (shuffle (nxt t) ps (of_nat (length ps)),
                         t\<lparr>arrs := (arrs t)(nxt t := [0..<length ps]), nxt := nxt t + 1\<rparr>)"
    by (simp add: Shuffle_def)
  from perm_indices(1) [OF assms(3)] have "length (arrs s a) = length ps" .
  with assms(1,2) show "fisher_yates a (of_nat (length ps) - 1) s
           = Inr (s\<lparr>pos := pos s + (length ps - 1),
                    arrs := (arrs s)(a := fy_pure (code_draws (length ps - 1) (rnd s) (pos s))
                                               (arrs s a))\<rparr>)"
    by (rule fisher_yates_shuffle)
  from assms show "Append (shuffle a ps (of_nat (length ps))) (b, s)
           = each Append
               (map ((!) ps) (fy_pure (code_draws (length ps - 1) (rnd s) (pos s)) (arrs s a)))
               (b, s\<lparr>pos := pos s + (length ps - 1),
                     arrs := (arrs s)(a := fy_pure (code_draws (length ps - 1) (rnd s) (pos s))
                                                (arrs s a))\<rparr>)"
    by (rule Append_shuffle_eq)
  from assms(1,2) show "code_draws (length ps - 1) (rnd s) (pos s) \<in> draws_for (length ps)"
    by (rule code_draws_in)
  from assms(1,3) show "bij_betw (\<lambda>js. fy_pure js (arrs s a)) (draws_for (length ps))
                   {ys. mset ys = mset [0..<length ps]}"
    by (rule fy_pure_bij_indices)
  from assms(1) show "card (draws_for (length ps)) = fact (length ps)"
    by (rule card_draws_for_length)
  show "perm_prob (arrs s a) ys = 1 / fact (length ps)" if "mset ys = mset [0..<length ps]"
    using assms(1,3) that by (rule perm_prob_eq)
  show "mset (arrs s' a) = mset [0..<length ps]" if "Append q (b, s) = Inr (b', s')"
  proof -
    from that have "perm_of (b', s') = perm_of (b, s)" by (rule Append_mset)
    then have "perm_of (b', s') a = perm_of (b, s) a" by simp
    with assms(3) show ?thesis by (simp add: perm_of_def)
  qed
qed

text \<open>
  The witness: \<open>Shuffle(a, b, c)\<close> with a raw source of zeros draws \<open>0\<close> twice, its
  array becomes \<open>[1, 2, 0]\<close> and it appends \<open>"bca"\<close>; there are six tuples of draws, and
  the arrangement \<open>[1, 2, 0]\<close> has probability \<open>1/6\<close>.
\<close>

theorem C7_Shuffle_witness:
  "abc \<noteq> [] \<and> length abc < 2 ^ 32
   \<and> mset (arrs (snd (Shuffle abc (st0 (\<lambda>_. 0)))) 0) = mset [0..<length abc]
   \<and> list_all (\<lambda>p. 0 \<notin> addrs p) abc
   \<and> Shuffle abc (st0 (\<lambda>_. 0)) = (shuffle 0 abc 3, (st0 (\<lambda>_. 0))\<lparr>arrs := (\<lambda>_. [])(0 := [0, 1, 2]), nxt := 1\<rparr>)
   \<and> code_draws 2 (\<lambda>_. 0) 0 = [0, 0]
   \<and> fy_pure [0, 0] [0, 1, 2] = [1, 2, 0 :: nat]
   \<and> out (Append (shuffle 0 abc 3) ([], snd (Shuffle abc (st0 (\<lambda>_. 0))))) = Inr (bytes_of ''bca'')
   \<and> card (draws_for 3) = 6
   \<and> mset [1, 2, 0] = mset [0..<length abc]
   \<and> perm_prob [0, 1, 2] [1, 2, 0] = 1 / 6
   \<and> Append (literal (bytes_of ''x'')) ([], snd (Shuffle abc (st0 (\<lambda>_. 0))))
       = Inr (bytes_of ''x'', snd (Shuffle abc (st0 (\<lambda>_. 0))))"
proof -
  let ?t = "st0 (\<lambda>_. 0)"
  let ?s = "snd (Shuffle abc ?t)"
  have l: "length abc = 3" by (simp add: abc_def)
  have h1: "abc \<noteq> []" by (simp add: abc_def)
  have h2: "length abc < 2 ^ 32" by (simp add: abc_def)
  have u: "[0..<3] = [0, 1, 2]" by (simp add: upt_rec)
  have h3: "mset (arrs ?s 0) = mset [0..<length abc]" by (simp add: Shuffle_def st0_def)
  have h4: "\<forall>p\<in>set abc. 0 \<notin> addrs p" by (simp add: abc_def)
  have h4': "list_all (\<lambda>p. 0 \<notin> addrs p) abc" by (simp add: abc_def)
  have sh: "Shuffle abc ?t = (shuffle 0 abc 3, ?t\<lparr>arrs := (\<lambda>_. [])(0 := [0, 1, 2]), nxt := 1\<rparr>)"
    by (simp add: Shuffle_def st0_def l u)
  have cd: "code_draws 2 (\<lambda>_. 0) 0 = [0, 0]"
    by (simp add: code_draws_zero numeral_2_eq_2)
  have fp: "fy_pure [0, 0] [0, 1, 2] = [1, 2, 0 :: nat]"
    by (simp add: swapl_def)
  note th = C7_Shuffle [OF h1 h2 h3 h4, where b = "[]" and t = ?t and ys = "[1, 2, 0]"
                          and q = "literal (bytes_of ''x'')" and b' = "bytes_of ''x''"
                          and s' = ?s]
  from th have ap: "Append (shuffle 0 abc (of_nat (length abc))) ([], ?s)
           = each Append
               (map ((!) abc) (fy_pure (code_draws (length abc - 1) (rnd ?s) (pos ?s)) (arrs ?s 0)))
               ([], ?s\<lparr>pos := pos ?s + (length abc - 1),
                     arrs := (arrs ?s)(0 := fy_pure (code_draws (length abc - 1) (rnd ?s) (pos ?s))
                                                (arrs ?s 0))\<rparr>)"
    by blast
  have rn: "rnd ?s = (\<lambda>_. 0)" "pos ?s = 0" "arrs ?s 0 = [0, 1, 2]"
    by (simp_all only: sh snd_conv) (simp_all add: st0_def)
  have l1: "length abc - 1 = 2" by (simp add: l)
  have len3: "(of_nat (length abc) :: uint32) = 3" by (simp add: l)
  define X where "X = ?s\<lparr>pos := pos ?s + (length abc - 1),
                     arrs := (arrs ?s)(0 := fy_pure (code_draws (length abc - 1) (rnd ?s) (pos ?s))
                                                (arrs ?s 0))\<rparr>"
  have rhs: "map ((!) abc) (fy_pure (code_draws (length abc - 1) (rnd ?s) (pos ?s)) (arrs ?s 0))
             = [literal (bytes_of ''b''), literal (bytes_of ''c''), literal (bytes_of ''a'')]"
    by (simp only: l1 rn cd fp) (simp add: abc_def)
  from ap have "Append (shuffle 0 abc 3) ([], ?s)
           = each Append [literal (bytes_of ''b''), literal (bytes_of ''c''), literal (bytes_of ''a'')]
               ([], X)"
    by (simp only: len3 rhs X_def)
  also have "\<dots> = Inr (bytes_of ''bca'', X)" by (simp add: bytes_of_def)
  finally have o: "out (Append (shuffle 0 abc 3) ([], ?s)) = Inr (bytes_of ''bca'')"
    by (simp only: out_def sum.case prod.case)
  from th have "card (draws_for (length abc)) = fact (length abc)" by blast
  then have c: "card (draws_for 3) = 6" by (simp add: l fact_numeral)
  have y: "mset [1, 2, 0] = mset [0..<length abc]" by (simp add: l u)
  from th y have "perm_prob (arrs ?s 0) [1, 2, 0] = 1 / fact (length abc)" by blast
  then have pr: "perm_prob [0, 1, 2] [1, 2, 0] = 1 / 6"
    by (simp only: rn l) (simp add: fact_numeral)
  have x: "Append (literal (bytes_of ''x'')) ([], ?s) = Inr (bytes_of ''x'', ?s)" by simp
  show ?thesis by (intro conjI) (rule h1 h2 h3 h4' sh cd fp o c y pr x)+
qed

text \<open>
  Claim C7 as stated fails for a list of \<open>2^32\<close> children: the count that \<open>Shuffle\<close>
  stores is \<open>uint32(len(p)) = 0\<close>, the loop that appends the children runs from 0 to
  that count, and \<open>Append\<close> appends nothing, where the children appended in any order
  give \<open>2^32\<close> bytes.
\<close>

theorem C7_Shuffle_counterexample:
  "many \<noteq> [] \<and> length many = 2 ^ 32
   \<and> fst (Shuffle many (st0 (\<lambda>_. 0))) = shuffle 0 many 0
   \<and> out (Append (fst (Shuffle many (st0 (\<lambda>_. 0)))) ([], snd (Shuffle many (st0 (\<lambda>_. 0)))))
       = Inr []
   \<and> out (each Append many ([], snd (Shuffle many (st0 (\<lambda>_. 0)))))
       = Inr (replicate (2 ^ 32) 97)"
proof (intro conjI)
  let ?t = "st0 (\<lambda>_. 0)"
  have z: "(of_nat (2 ^ 32) :: uint32) = 0" by simp
  show "many \<noteq> []" using many_length by auto
  show "length many = 2 ^ 32" by (rule many_length)
  show f: "fst (Shuffle many ?t) = shuffle 0 many 0"
    by (simp only: Shuffle_def fst_conv many_length z) (simp add: st0_def)
  have "length (arrs (snd (Shuffle many ?t)) 0) = 2 ^ 32"
    by (simp only: Shuffle_def snd_conv many_length) (simp add: st0_def)
  then show "out (Append (fst (Shuffle many ?t)) ([], snd (Shuffle many ?t))) = Inr []"
    by (simp only: f Append_shuffle_wrap)
  have "concat (replicate n (bytes_of ''a'')) = replicate n 97" for n
    by (induction n) (simp_all add: bytes_of_def)
  then show "out (each Append many ([], snd (Shuffle many ?t))) = Inr (replicate (2 ^ 32) 97)"
    by (simp only: many_def each_Append_literals out_def sum.case prod.case append_Nil)
qed

end
